theory Spec2Isabelle
  imports Main "HOL-Library.Word"
begin

unbundle bit_operations_syntax

section \<open>Python values and exceptions\<close>

text \<open>
  A Python \<open>bytes\<close> object is a list of bytes; indexing it gives an unbounded Python
  integer between 0 and 255. Every exception the reader can raise is a value of
  \<open>error\<close>; a function that can raise returns \<open>error + 'a\<close>.
\<close>

type_synonym byte = "8 word"

datatype error = IndexError | KeyError | AttributeError | ValueError | OSError | MemoryError

section \<open>Byte codec (pf2.py, lines 6 to 27)\<close>

definition uint32be :: "byte list \<Rightarrow> error + int" where
  "uint32be b =
     (if length b < 4 then Inl IndexError
      else Inr (push_bit 32 (uint (b ! 0)) + push_bit 16 (uint (b ! 1))
                + push_bit 8 (uint (b ! 2)) + uint (b ! 3)))"

definition int32be :: "byte list \<Rightarrow> error + int" where
  "int32be b =
     (case uint32be b of
        Inl e \<Rightarrow> Inl e
      | Inr u \<Rightarrow> Inr (u - push_bit 32 (drop_bit 31 u AND 1)))"

definition uint16be :: "byte list \<Rightarrow> error + int" where
  "uint16be b =
     (if length b < 2 then Inl IndexError
      else Inr (push_bit 8 (uint (b ! 0)) + uint (b ! 1)))"

definition int16be :: "byte list \<Rightarrow> error + int" where
  "int16be b =
     (case uint16be b of
        Inl e \<Rightarrow> Inl e
      | Inr u \<Rightarrow> Inr (u - push_bit 16 (drop_bit 15 u AND 1)))"

section \<open>Byte streams: the opened file and \<open>io.BytesIO\<close>\<close>

text \<open>
  A stream is its content, its cursor and whether it has been closed. \<open>read\<close> returns
  at most the requested number of bytes and fewer at the end of the content, without
  raising. A binary file refuses a negative seek with \<open>OSError\<close> and a read length
  below -1 with \<open>ValueError\<close>; a \<open>BytesIO\<close> refuses a negative seek with
  \<open>ValueError\<close> and reads to the end on any negative length. Every operation on a
  closed stream but \<open>close\<close> raises \<open>ValueError\<close>.

  \<open>read(n)\<close> on a file allocates the \<open>n\<close> bytes before it reads, and raises
  \<open>MemoryError\<close> when the process cannot have them, however few bytes the file still
  holds. How much it can have depends on the machine: \<open>s_max_read\<close> is the largest
  count it can allocate, a parameter given when the file is opened. Counts below
  \<open>2 ^ 32\<close> are taken as always within reach: the reader asks for 1, 2, 4 or 12 bytes,
  for a section length below \<open>2 ^ 24\<close> or a bitmap below \<open>2 ^ 29\<close> bytes, or else
  for a section length of \<open>2 ^ 32\<close> or more (a length field whose first byte is not
  zero). A \<open>BytesIO\<close> cuts the count down to what it holds and allocates no more.
\<close>

datatype io_kind = FileIO | BytesIO

record stream =
  s_kind :: io_kind
  s_content :: "byte list"
  s_pos :: nat
  s_closed :: bool
  s_max_read :: nat

definition open_rb :: "nat \<Rightarrow> byte list \<Rightarrow> stream" where
  "open_rb max_read bs =
     \<lparr>s_kind = FileIO, s_content = bs, s_pos = 0, s_closed = False, s_max_read = max_read\<rparr>"

definition bytes_io :: "byte list \<Rightarrow> stream" where
  "bytes_io bs =
     \<lparr>s_kind = BytesIO, s_content = bs, s_pos = 0, s_closed = False, s_max_read = 0\<rparr>"

definition remaining :: "stream \<Rightarrow> nat" where
  "remaining s = length (s_content s) - s_pos s"

definition read_all :: "stream \<Rightarrow> error + (byte list \<times> stream)" where
  "read_all s =
     (if s_closed s then Inl ValueError
      else let d = drop (s_pos s) (s_content s)
           in Inr (d, s\<lparr>s_pos := s_pos s + length d\<rparr>))"

definition read_n :: "stream \<Rightarrow> int \<Rightarrow> error + (byte list \<times> stream)" where
  "read_n s n =
     (if s_closed s then Inl ValueError
      else if n < 0 then
        (if n = - 1 \<or> s_kind s = BytesIO then read_all s else Inl ValueError)
      else if s_kind s = FileIO \<and> 2 ^ 32 \<le> n \<and> int (s_max_read s) < n then Inl MemoryError
      else let d = take (nat n) (drop (s_pos s) (s_content s))
           in Inr (d, s\<lparr>s_pos := s_pos s + length d\<rparr>))"

definition seek :: "stream \<Rightarrow> int \<Rightarrow> error + stream" where
  "seek s k =
     (if s_closed s then Inl ValueError
      else if k < 0 then Inl (case s_kind s of FileIO \<Rightarrow> OSError | BytesIO \<Rightarrow> ValueError)
      else Inr (s\<lparr>s_pos := nat k\<rparr>))"

definition tell :: "stream \<Rightarrow> error + int" where
  "tell s = (if s_closed s then Inl ValueError else Inr (int (s_pos s)))"

definition close_stream :: "stream \<Rightarrow> stream" where
  "close_stream s = s\<lparr>s_closed := True\<rparr>"

section \<open>The font handle (class \<open>PF2\<close>) and a glyph (class \<open>Character\<close>)\<close>

text \<open>
  The class bodies only annotate their attributes, so an attribute exists once it has
  been assigned: each is an option, and reading \<open>None\<close> is \<open>AttributeError\<close>.
\<close>

record Character =
  width :: int
  height :: int
  x_offset :: int
  y_offset :: int
  device_width :: int
  bitmap_data :: "byte list"

type_synonym char_index = "int \<rightharpoonup> (int \<times> int)"

record pf2 =
  is_pf2 :: bool
  missing_character_code :: int
  in_memory :: bool
  font_name :: "byte list option"
  family :: "byte list option"
  weight :: "byte list option"
  slant :: "byte list option"
  point_size :: "int option"
  max_width :: "int option"
  max_height :: "int option"
  ascent :: "int option"
  descent :: "int option"
  character_index :: "char_index option"
  data_offset :: "int option"
  data_io :: "stream option"

definition new_pf2 :: "int \<Rightarrow> bool \<Rightarrow> pf2" where
  "new_pf2 mc rtm =
     \<lparr>is_pf2 = False, missing_character_code = mc, in_memory = rtm,
      font_name = None, family = None, weight = None, slant = None,
      point_size = None, max_width = None, max_height = None,
      ascent = None, descent = None,
      character_index = None, data_offset = None, data_io = None\<rparr>"

definition magic :: "byte list" where
  "magic = [0x46, 0x49, 0x4C, 0x45, 0x00, 0x00, 0x00, 0x04, 0x50, 0x46, 0x46, 0x32]"

definition tag_CHIX :: "byte list" where "tag_CHIX = [0x43, 0x48, 0x49, 0x58]"
definition tag_DATA :: "byte list" where "tag_DATA = [0x44, 0x41, 0x54, 0x41]"
definition tag_NAME :: "byte list" where "tag_NAME = [0x4E, 0x41, 0x4D, 0x45]"
definition tag_FAMI :: "byte list" where "tag_FAMI = [0x46, 0x41, 0x4D, 0x49]"
definition tag_WEIG :: "byte list" where "tag_WEIG = [0x57, 0x45, 0x49, 0x47]"
definition tag_SLAN :: "byte list" where "tag_SLAN = [0x53, 0x4C, 0x41, 0x4E]"
definition tag_PTSZ :: "byte list" where "tag_PTSZ = [0x50, 0x54, 0x53, 0x5A]"
definition tag_MAXW :: "byte list" where "tag_MAXW = [0x4D, 0x41, 0x58, 0x57]"
definition tag_MAXH :: "byte list" where "tag_MAXH = [0x4D, 0x41, 0x58, 0x48]"
definition tag_ASCE :: "byte list" where "tag_ASCE = [0x41, 0x53, 0x43, 0x45]"
definition tag_DESC :: "byte list" where "tag_DESC = [0x44, 0x45, 0x53, 0x43]"

section \<open>Section scanner (\<open>PF2.__init__\<close>, lines 62 to 109)\<close>

text \<open>The body of the \<open>for\<close> loop of a \<open>CHIX\<close> section, run \<open>n\<close> times.\<close>

fun read_chix :: "nat \<Rightarrow> char_index \<Rightarrow> stream \<Rightarrow> error + (char_index \<times> stream)" where
  "read_chix 0 idx f = Inr (idx, f)"
| "read_chix (Suc n) idx f =
     (case read_n f 4 of Inl e \<Rightarrow> Inl e | Inr (cb, f1) \<Rightarrow>
     (case int32be cb of Inl e \<Rightarrow> Inl e | Inr code_point \<Rightarrow>
     (case read_n f1 1 of Inl e \<Rightarrow> Inl e | Inr (c, f2) \<Rightarrow>
     (case c of [] \<Rightarrow> Inl IndexError | compression # _ \<Rightarrow>
     (case read_n f2 4 of Inl e \<Rightarrow> Inl e | Inr (ob, f3) \<Rightarrow>
     (case int32be ob of Inl e \<Rightarrow> Inl e | Inr offset \<Rightarrow>
        read_chix n (idx(code_point \<mapsto> (uint compression, offset))) f3))))))"

text \<open>The \<open>if\<close>/\<open>elif\<close> chain over the name of a metadata section.\<close>

definition set_field :: "pf2 \<Rightarrow> byte list \<Rightarrow> byte list \<Rightarrow> error + pf2" where
  "set_field h name data =
     (if name = tag_NAME then Inr (h\<lparr>font_name := Some data\<rparr>)
      else if name = tag_FAMI then Inr (h\<lparr>family := Some data\<rparr>)
      else if name = tag_WEIG then Inr (h\<lparr>weight := Some data\<rparr>)
      else if name = tag_SLAN then Inr (h\<lparr>slant := Some data\<rparr>)
      else if name = tag_PTSZ then
        (case uint16be data of Inl e \<Rightarrow> Inl e | Inr v \<Rightarrow> Inr (h\<lparr>point_size := Some v\<rparr>))
      else if name = tag_MAXW then
        (case uint16be data of Inl e \<Rightarrow> Inl e | Inr v \<Rightarrow> Inr (h\<lparr>max_width := Some v\<rparr>))
      else if name = tag_MAXH then
        (case uint16be data of Inl e \<Rightarrow> Inl e | Inr v \<Rightarrow> Inr (h\<lparr>max_height := Some v\<rparr>))
      else if name = tag_ASCE then
        (case uint16be data of Inl e \<Rightarrow> Inl e | Inr v \<Rightarrow> Inr (h\<lparr>ascent := Some v\<rparr>))
      else if name = tag_DESC then
        (case uint16be data of Inl e \<Rightarrow> Inl e | Inr v \<Rightarrow> Inr (h\<lparr>descent := Some v\<rparr>))
      else Inr h)"

text \<open>
  The \<open>DATA\<close> branch. With \<open>read_to_mem\<close> the rest of the file goes into a
  \<open>BytesIO\<close>, \<open>data_offset\<close> is minus the position the file reports after that
  read, and the file is closed; otherwise the file itself is the data source.
  The result is the handle and the final state of the local \<open>file\<close>.
\<close>

definition on_data :: "pf2 \<Rightarrow> stream \<Rightarrow> bool \<Rightarrow> error + (pf2 \<times> stream)" where
  "on_data h f read_to_mem =
     (if read_to_mem then
        (case read_all f of Inl e \<Rightarrow> Inl e | Inr (d, f1) \<Rightarrow>
        (case tell f1 of Inl e \<Rightarrow> Inl e | Inr p \<Rightarrow>
           Inr (h\<lparr>data_io := Some (bytes_io d), data_offset := Some (- p)\<rparr>,
                close_stream f1)))
      else Inr (h\<lparr>data_io := Some f, data_offset := Some 0\<rparr>, f))"

text \<open>
  Facts about reading that the termination of the scan rests on: a read never moves the
  cursor back, and a 4-byte read that \<open>int32be\<close> accepts has consumed four bytes.
\<close>

lemma read_n_Inr:
  "read_n f n = Inr (d, f') \<Longrightarrow>
     s_content f' = s_content f \<and> s_pos f' = s_pos f + length d \<and> s_closed f' = s_closed f
     \<and> s_kind f' = s_kind f \<and> remaining f' = remaining f - length d \<and> \<not> s_closed f"
  by (auto simp: read_n_def read_all_def remaining_def Let_def split: if_splits)

lemma read_n_remaining_le:
  "read_n f n = Inr (d, f') \<Longrightarrow> remaining f' \<le> remaining f"
  by (simp add: read_n_Inr)

lemma int32be_Inr_length: "int32be b = Inr v \<Longrightarrow> 4 \<le> length b"
  by (auto simp: int32be_def uint32be_def split: if_splits sum.splits)

lemma read_n_4_decoded:
  assumes r: "read_n f 4 = Inr (b, f')" and d: "int32be b = Inr v"
  shows "remaining f' < remaining f"
proof -
  have "length b \<le> remaining f"
    using r by (auto simp: read_n_def remaining_def Let_def split: if_splits)
  moreover have "4 \<le> length b" using d by (rule int32be_Inr_length)
  moreover have "remaining f' = remaining f - length b" using r by (simp add: read_n_Inr)
  ultimately show ?thesis by linarith
qed

lemma read_chix_remaining_le:
  "read_chix n idx f = Inr (idx', f') \<Longrightarrow> remaining f' \<le> remaining f"
proof (induction n arbitrary: idx f)
  case 0
  then show ?case by simp
next
  case (Suc n)
  from Suc.prems obtain cb f1 cp c f2 ob f3 off x where
    r1: "read_n f 4 = Inr (cb, f1)" and
    r2: "read_n f1 1 = Inr (c, f2)" and
    r3: "read_n f2 4 = Inr (ob, f3)" and
    rec: "read_chix n (idx(cp \<mapsto> (x, off))) f3 = Inr (idx', f')"
    by (auto split: sum.splits prod.splits list.splits)
  have "remaining f' \<le> remaining f3" using rec by (rule Suc.IH)
  also have "\<dots> \<le> remaining f2" using r3 by (rule read_n_remaining_le)
  also have "\<dots> \<le> remaining f1" using r2 by (rule read_n_remaining_le)
  also have "\<dots> \<le> remaining f" using r1 by (rule read_n_remaining_le)
  finally show ?case .
qed

text \<open>
  The \<open>while True\<close> loop. Each round reads a 4-byte name and a 4-byte length; it ends
  at \<open>DATA\<close>, or with the exception of a read that comes back short or that asks for
  more than can be allocated.
\<close>

function scan :: "pf2 \<Rightarrow> stream \<Rightarrow> bool \<Rightarrow> error + (pf2 \<times> stream)" where
  "scan h f read_to_mem =
     (case read_n f 4 of Inl e \<Rightarrow> Inl e | Inr (name, f1) \<Rightarrow>
     (case read_n f1 4 of Inl e \<Rightarrow> Inl e | Inr (lb, f2) \<Rightarrow>
     (case int32be lb of Inl e \<Rightarrow> Inl e | Inr data_length \<Rightarrow>
        if name = tag_CHIX then
          (case read_chix (nat (data_length div 9)) Map.empty f2 of
             Inl e \<Rightarrow> Inl e
           | Inr (idx, f3) \<Rightarrow> scan (h\<lparr>character_index := Some idx\<rparr>) f3 read_to_mem)
        else if name = tag_DATA then on_data h f2 read_to_mem
        else
          (case read_n f2 data_length of Inl e \<Rightarrow> Inl e | Inr (data, f3) \<Rightarrow>
          (case set_field h name data of Inl e \<Rightarrow> Inl e | Inr h' \<Rightarrow>
             scan h' f3 read_to_mem)))))"
  by pat_completeness auto
termination
proof (relation "measure (\<lambda>(h, f, r). remaining f)")
  show "wf (measure (\<lambda>(h, f, r). remaining f))" by simp
next
  fix h :: pf2 and f read_to_mem x2 name f1 x2a lb f2 data_length x2c idx f3
  assume a: "read_n f 4 = Inr x2" "(name, f1) = x2" "read_n f1 4 = Inr x2a" "(lb, f2) = x2a"
    "int32be lb = Inr data_length"
    "read_chix (nat (data_length div 9)) Map.empty f2 = Inr x2c" "(idx, f3) = x2c"
  have "remaining f3 \<le> remaining f2" using a(6,7) read_chix_remaining_le by metis
  moreover have "remaining f2 < remaining f1" using a(3,4,5) read_n_4_decoded by metis
  moreover have "remaining f1 \<le> remaining f" using a(1,2) read_n_remaining_le by metis
  ultimately show "((h\<lparr>character_index := Some idx\<rparr>, f3, read_to_mem), h, f, read_to_mem)
      \<in> measure (\<lambda>(h, f, r). remaining f)"
    by simp
next
  fix h :: pf2 and f read_to_mem x2 name f1 x2a lb f2 data_length x2c data f3 and h' :: pf2
  assume a: "read_n f 4 = Inr x2" "(name, f1) = x2" "read_n f1 4 = Inr x2a" "(lb, f2) = x2a"
    "int32be lb = Inr data_length"
    "read_n f2 data_length = Inr x2c" "(data, f3) = x2c"
  have "remaining f3 \<le> remaining f2" using a(6,7) read_n_remaining_le by metis
  moreover have "remaining f2 < remaining f1" using a(3,4,5) read_n_4_decoded by metis
  moreover have "remaining f1 \<le> remaining f" using a(1,2) read_n_remaining_le by metis
  ultimately show "((h', f3, read_to_mem), h, f, read_to_mem)
      \<in> measure (\<lambda>(h, f, r). remaining f)"
    by simp
qed

text \<open>
  \<open>PF2.__init__\<close> on a file with the given bytes, on a machine where a read can
  allocate \<open>max_read\<close> bytes; \<open>missing_character\<close> is the code point
  \<open>ord(missing_character)\<close>. On a magic mismatch it returns at once, leaving the
  file open.
\<close>

definition init_pf2 :: "nat \<Rightarrow> byte list \<Rightarrow> bool \<Rightarrow> int \<Rightarrow> error + (pf2 \<times> stream)" where
  "init_pf2 max_read file_bytes read_to_mem missing_character =
     (let self = new_pf2 missing_character read_to_mem;
          file = open_rb max_read file_bytes
      in (case read_n file 12 of Inl e \<Rightarrow> Inl e | Inr (m, f1) \<Rightarrow>
           if m \<noteq> magic then Inr (self\<lparr>is_pf2 := False\<rparr>, f1)
           else scan (self\<lparr>is_pf2 := True\<rparr>) f1 read_to_mem))"

section \<open>Glyph decoder (\<open>PF2.get_char\<close>, lines 111 to 129) and \<open>close\<close>\<close>

text \<open>The reads of lines 120 to 129, from wherever the cursor of the source stands.\<close>

definition read_glyph :: "stream \<Rightarrow> error + (Character \<times> stream)" where
  "read_glyph d0 =
     (case read_n d0 2 of Inl e \<Rightarrow> Inl e | Inr (b1, d1) \<Rightarrow>
     (case uint16be b1 of Inl e \<Rightarrow> Inl e | Inr w \<Rightarrow>
     (case read_n d1 2 of Inl e \<Rightarrow> Inl e | Inr (b2, d2) \<Rightarrow>
     (case uint16be b2 of Inl e \<Rightarrow> Inl e | Inr ht \<Rightarrow>
     (case read_n d2 2 of Inl e \<Rightarrow> Inl e | Inr (b3, d3) \<Rightarrow>
     (case int16be b3 of Inl e \<Rightarrow> Inl e | Inr xo \<Rightarrow>
     (case read_n d3 2 of Inl e \<Rightarrow> Inl e | Inr (b4, d4) \<Rightarrow>
     (case int16be b4 of Inl e \<Rightarrow> Inl e | Inr yo \<Rightarrow>
     (case read_n d4 2 of Inl e \<Rightarrow> Inl e | Inr (b5, d5) \<Rightarrow>
     (case int16be b5 of Inl e \<Rightarrow> Inl e | Inr dw \<Rightarrow>
     (case read_n d5 ((w * ht + 7) div 8) of Inl e \<Rightarrow> Inl e | Inr (bm, d6) \<Rightarrow>
        Inr (\<lparr>width = w, height = ht, x_offset = xo, y_offset = yo,
               device_width = dw, bitmap_data = bm\<rparr>, d6))))))))))))"

text \<open>Lines 114 to 117: the index entry of the code point, or of the missing character.\<close>

definition find_info :: "pf2 \<Rightarrow> int \<Rightarrow> error + (int \<times> int)" where
  "find_info h char_point =
     (case character_index h of None \<Rightarrow> Inl AttributeError | Some idx \<Rightarrow>
     (case idx char_point of Some info \<Rightarrow> Inr info | None \<Rightarrow>
     (case idx (missing_character_code h) of None \<Rightarrow> Inl KeyError | Some info \<Rightarrow> Inr info)))"

text \<open>
  \<open>get_char\<close> on the code point \<open>ord(char)\<close>. It returns the glyph and the handle,
  whose data source has moved its cursor.
\<close>

definition get_char :: "pf2 \<Rightarrow> int \<Rightarrow> error + (Character \<times> pf2)" where
  "get_char h char_point =
     (case find_info h char_point of Inl e \<Rightarrow> Inl e | Inr (compression, offset) \<Rightarrow>
     (case data_io h of None \<Rightarrow> Inl AttributeError | Some data \<Rightarrow>
     (case data_offset h of None \<Rightarrow> Inl AttributeError | Some corr \<Rightarrow>
     (case seek data (offset + corr) of Inl e \<Rightarrow> Inl e | Inr d0 \<Rightarrow>
     (case read_glyph d0 of Inl e \<Rightarrow> Inl e | Inr (c, d6) \<Rightarrow>
        Inr (c, h\<lparr>data_io := Some d6\<rparr>))))))"

definition close :: "pf2 \<Rightarrow> error + pf2" where
  "close h =
     (if \<not> in_memory h then
        (case data_io h of None \<Rightarrow> Inl AttributeError
         | Some s \<Rightarrow> Inr (h\<lparr>data_io := Some (close_stream s)\<rparr>))
      else Inr h)"

section \<open>The byte codec on well-formed inputs\<close>

lemma uint_byte_bounds: "0 \<le> uint (a :: byte) \<and> uint a < 256"
  using uint_bounded [of a] by simp

lemma uint16be_pair: "uint16be [a, b] = Inr (uint a * 2 ^ 8 + uint b)"
  by (simp add: uint16be_def push_bit_eq_mult)

text \<open>
  The 16-bit decoders are the big-endian ones: \<open>int16be\<close> subtracts \<open>2 ^ 16\<close>
  exactly when bit 15 is set.
\<close>

lemma int16be_pair:
  "int16be [a, b] =
     Inr (if uint a * 2 ^ 8 + uint b < 2 ^ 15 then uint a * 2 ^ 8 + uint b
          else uint a * 2 ^ 8 + uint b - 2 ^ 16)"
proof -
  let ?u = "uint a * 2 ^ 8 + uint b"
  have b: "0 \<le> ?u" "?u < 2 ^ 16"
    using uint_byte_bounds [of a] uint_byte_bounds [of b] by auto
  have d: "drop_bit 15 ?u = ?u div 2 ^ 15" by (simp add: drop_bit_eq_div)
  have "?u div 2 ^ 15 = (if ?u < 2 ^ 15 then 0 else 1)"
    using b by auto
  then have "drop_bit 15 ?u AND 1 = (if ?u < 2 ^ 15 then 0 else 1)"
    using d by (simp add: and_one_eq)
  then show ?thesis
    by (simp add: int16be_def uint16be_pair push_bit_eq_mult)
qed

text \<open>
  The 32-bit decoders shift the first byte by 32 bits, so bits 24 to 31 of the result
  are always clear, and \<open>int32be\<close> never subtracts anything.
\<close>

lemma uint32be_quad:
  "uint32be [a, b, c, d] = Inr (uint a * 2 ^ 32 + uint b * 2 ^ 16 + uint c * 2 ^ 8 + uint d)"
  by (simp add: uint32be_def push_bit_eq_mult)

lemma int32be_quad:
  "int32be [a, b, c, d] = Inr (uint a * 2 ^ 32 + uint b * 2 ^ 16 + uint c * 2 ^ 8 + uint d)"
proof -
  define lo where "lo = uint b * 2 ^ 16 + uint c * 2 ^ 8 + uint d"
  define u where "u = uint a * 2 ^ 32 + lo"
  have lo: "0 \<le> lo" "lo < 2 ^ 31"
    using uint_byte_bounds [of b] uint_byte_bounds [of c] uint_byte_bounds [of d]
    by (auto simp: lo_def)
  have "lo div 2 ^ 31 = 0"
    using lo by (intro div_pos_pos_trivial)
  moreover have "u = lo + (uint a * 2) * 2 ^ 31" by (simp add: u_def)
  moreover have "(lo + (uint a * 2) * 2 ^ 31) div 2 ^ 31 = uint a * 2 + lo div 2 ^ 31"
    by (rule div_mult_self1) simp
  ultimately have "u div 2 ^ 31 = uint a * 2" by simp
  then have z: "drop_bit 31 u AND 1 = 0"
    by (simp add: drop_bit_eq_div and_one_eq)
  have "uint32be [a, b, c, d] = Inr u"
    by (simp add: uint32be_def push_bit_eq_mult u_def lo_def)
  then have "int32be [a, b, c, d] = Inr u"
    using z by (simp add: int32be_def)
  then show ?thesis by (simp add: u_def lo_def)
qed

section \<open>C1: the 32-bit decoders\<close>

text \<open>
  C1 says that \<open>u32be\<close> of four bytes is \<open>b[0]*2^24 + b[1]*2^16 + b[2]*2^8 + b[3]\<close>
  and that \<open>s32be\<close> is its two's-complement reading with sign bit 31. The source
  shifts \<open>b[0]\<close> by 32: on the bytes 01 00 00 00 \<open>uint32be\<close> gives \<open>2^32\<close> where the
  big-endian value is \<open>2^24 = 16777216\<close>, and on FF FF FF FF \<open>int32be\<close> gives
  \<open>255 * 2^32 + 2^24 - 1\<close> where the two's-complement value is \<open>-1\<close>.
\<close>

theorem C1_uint32be_shifts_first_byte_by_32:
  "uint32be [1, 0, 0, 0] = Inr 4294967296
   \<and> uint32be [1, 0, 0, 0] \<noteq> Inr (1 * 2 ^ 24 + 0 * 2 ^ 16 + 0 * 2 ^ 8 + 0)
   \<and> int32be [255, 255, 255, 255] = Inr 1095233437695
   \<and> int32be [255, 255, 255, 255] \<noteq> Inr (- 1)"
  by (simp add: uint32be_def int32be_def)

section \<open>What a scan that reaches \<open>DATA\<close> leaves behind\<close>

text \<open>
  The defining equation of \<open>scan\<close> is applied on demand, through the three lemmas
  \<open>scan_CHIX\<close>, \<open>scan_DATA\<close> and \<open>scan_other\<close>, one per branch of the loop body.
\<close>

declare scan.simps [simp del]

lemma read_n_pos_le:
  "read_n f n = Inr (d, f') \<Longrightarrow> s_pos f \<le> length (s_content f) \<Longrightarrow>
     s_pos f' \<le> length (s_content f')"
  by (auto simp: read_n_def read_all_def Let_def split: if_splits)

lemma read_chix_stream:
  "read_chix n idx f = Inr (idx', f') \<Longrightarrow>
     s_content f' = s_content f \<and> s_kind f' = s_kind f \<and> s_closed f' = s_closed f
     \<and> (s_pos f \<le> length (s_content f) \<longrightarrow> s_pos f' \<le> length (s_content f'))"
proof (induction n arbitrary: idx f)
  case 0
  then show ?case by simp
next
  case (Suc n)
  from Suc.prems obtain cb f1 cp c f2 ob f3 off x where
    r1: "read_n f 4 = Inr (cb, f1)" and
    r2: "read_n f1 1 = Inr (c, f2)" and
    r3: "read_n f2 4 = Inr (ob, f3)" and
    rec: "read_chix n (idx(cp \<mapsto> (x, off))) f3 = Inr (idx', f')"
    by (auto split: sum.splits prod.splits list.splits)
  note ih = Suc.IH [OF rec]
  from r1 r2 r3 have "s_content f3 = s_content f \<and> s_kind f3 = s_kind f \<and> s_closed f3 = s_closed f"
    by (simp add: read_n_Inr)
  moreover have "s_pos f \<le> length (s_content f) \<longrightarrow> s_pos f3 \<le> length (s_content f3)"
    using r1 r2 r3 by (blast dest: read_n_pos_le)
  ultimately show ?case using ih by auto
qed

lemma set_field_flags:
  "set_field h name data = Inr h' \<Longrightarrow>
     is_pf2 h' = is_pf2 h \<and> in_memory h' = in_memory h
     \<and> missing_character_code h' = missing_character_code h
     \<and> character_index h' = character_index h"
  by (auto simp: set_field_def split: if_splits sum.splits)


lemma tags_distinct: "tag_CHIX \<noteq> tag_DATA"
  by (simp add: tag_CHIX_def tag_DATA_def)

lemma scan_CHIX:
  assumes "read_n f 4 = Inr (tag_CHIX, f1)" "read_n f1 4 = Inr (lb, f2)" "int32be lb = Inr L"
  shows "scan h f rtm =
     (case read_chix (nat (L div 9)) Map.empty f2 of Inl e \<Rightarrow> Inl e
      | Inr (idx, f3) \<Rightarrow> scan (h\<lparr>character_index := Some idx\<rparr>) f3 rtm)"
  using assms by (subst scan.simps) simp

lemma scan_DATA:
  assumes "read_n f 4 = Inr (tag_DATA, f1)" "read_n f1 4 = Inr (lb, f2)" "int32be lb = Inr L"
  shows "scan h f rtm = on_data h f2 rtm"
  using assms by (subst scan.simps) (simp add: tags_distinct [symmetric])


lemma scan_flags:
  "scan h f rtm = Inr (h', f') \<Longrightarrow>
     is_pf2 h' = is_pf2 h \<and> in_memory h' = in_memory h
     \<and> missing_character_code h' = missing_character_code h
     \<and> data_io h' \<noteq> None \<and> data_offset h' \<noteq> None"
proof (induction h f rtm arbitrary: h' f' rule: scan.induct)
  case (1 h f rtm)
  from "1.prems" obtain name f1 lb f2 L where
    r1: "read_n f 4 = Inr (name, f1)" and r2: "read_n f1 4 = Inr (lb, f2)"
    and d: "int32be lb = Inr L"
    by (subst (asm) scan.simps) (auto split: sum.splits prod.splits)
  show ?case
  proof (cases "name = tag_CHIX")
    case True
    with "1.prems" r1 r2 d obtain idx f3 where
      c: "read_chix (nat (L div 9)) Map.empty f2 = Inr (idx, f3)"
      and s: "scan (h\<lparr>character_index := Some idx\<rparr>) f3 rtm = Inr (h', f')"
      by (subst (asm) scan.simps) (auto split: sum.splits prod.splits)
    from "1.IH"(1) [OF r1 refl r2 refl d True c refl s] show ?thesis by simp
  next
    case notchix: False
    show ?thesis
    proof (cases "name = tag_DATA")
      case True
      with "1.prems" r1 r2 d have "on_data h f2 rtm = Inr (h', f')"
        by (simp add: scan_DATA)
      then show ?thesis
        by (auto simp: on_data_def split: if_splits sum.splits prod.splits)
    next
      case False
      with "1.prems" r1 r2 d notchix obtain data f3 h1 where
        c: "read_n f2 L = Inr (data, f3)" and sf: "set_field h name data = Inr h1"
        and s: "scan h1 f3 rtm = Inr (h', f')"
        by (subst (asm) scan.simps) (auto split: sum.splits prod.splits)
      from "1.IH"(2) [OF r1 refl r2 refl d notchix False c refl sf s] set_field_flags [OF sf]
      show ?thesis by simp
    qed
  qed
qed


lemma on_data_result:
  assumes "on_data h f rtm = Inr (h', f')" "s_pos f \<le> length (s_content f)"
  shows "is_pf2 h' = is_pf2 h \<and> in_memory h' = in_memory h
     \<and> missing_character_code h' = missing_character_code h
     \<and> character_index h' = character_index h
     \<and> (if rtm then data_offset h' = Some (- int (length (s_content f)))
              \<and> data_io h' = Some (bytes_io (drop (s_pos f) (s_content f)))
              \<and> f' = f\<lparr>s_pos := length (s_content f), s_closed := True\<rparr>
         else data_io h' = Some f \<and> data_offset h' = Some 0 \<and> f' = f)"
  using assms
  by (auto simp: on_data_def read_all_def tell_def close_stream_def Let_def
           split: if_splits)

definition scan_post :: "pf2 \<Rightarrow> stream \<Rightarrow> bool \<Rightarrow> pf2 \<Rightarrow> stream \<Rightarrow> bool" where
  "scan_post h f rtm h' f' =
     (is_pf2 h' = is_pf2 h \<and> in_memory h' = in_memory h
      \<and> missing_character_code h' = missing_character_code h
      \<and> s_content f' = s_content f \<and> s_kind f' = s_kind f
      \<and> s_pos f' \<le> length (s_content f)
      \<and> (if rtm then data_offset h' = Some (- int (length (s_content f)))
               \<and> (\<exists>p \<le> length (s_content f). s_pos f \<le> p \<and>
                      data_io h' = Some (bytes_io (drop p (s_content f))))
               \<and> s_closed f'
          else data_io h' = Some f' \<and> data_offset h' = Some 0 \<and> s_closed f' = s_closed f))"

lemma read_n_le_pos:
  "read_n f n = Inr (d, f') \<Longrightarrow> s_pos f \<le> s_pos f'"
  by (simp add: read_n_Inr)

lemma read_chix_le_pos:
  "read_chix n idx f = Inr (idx', f') \<Longrightarrow> s_pos f \<le> s_pos f'"
proof (induction n arbitrary: idx f)
  case 0
  then show ?case by simp
next
  case (Suc n)
  from Suc.prems obtain cb f1 cp c f2 ob f3 off x where
    r1: "read_n f 4 = Inr (cb, f1)" and
    r2: "read_n f1 1 = Inr (c, f2)" and
    r3: "read_n f2 4 = Inr (ob, f3)" and
    rec: "read_chix n (idx(cp \<mapsto> (x, off))) f3 = Inr (idx', f')"
    by (auto split: sum.splits prod.splits list.splits)
  have "s_pos f \<le> s_pos f1" using r1 by (rule read_n_le_pos)
  also have "\<dots> \<le> s_pos f2" using r2 by (rule read_n_le_pos)
  also have "\<dots> \<le> s_pos f3" using r3 by (rule read_n_le_pos)
  also have "\<dots> \<le> s_pos f'" using rec by (rule Suc.IH)
  finally show ?case .
qed

lemma scan_post_step:
  assumes "scan_post h1 f3 rtm h' f'"
    and "s_content f3 = s_content f" "s_kind f3 = s_kind f" "s_closed f3 = s_closed f"
    and "s_pos f \<le> s_pos f3"
    and "is_pf2 h1 = is_pf2 h" "in_memory h1 = in_memory h"
    and "missing_character_code h1 = missing_character_code h"
  shows "scan_post h f rtm h' f'"
  using assms unfolding scan_post_def by (cases rtm) auto

lemma scan_result:
  "scan h f rtm = Inr (h', f') \<Longrightarrow> s_pos f \<le> length (s_content f) \<Longrightarrow>
     scan_post h f rtm h' f'"
proof (induction h f rtm arbitrary: h' f' rule: scan.induct)
  case (1 h f rtm)
  from "1.prems"(1) obtain name f1 lb f2 L where
    r1: "read_n f 4 = Inr (name, f1)" and r2: "read_n f1 4 = Inr (lb, f2)"
    and d: "int32be lb = Inr L"
    by (subst (asm) scan.simps) (auto split: sum.splits prod.splits)
  have f2: "s_content f2 = s_content f" "s_kind f2 = s_kind f" "s_closed f2 = s_closed f"
    "s_pos f \<le> s_pos f2"
    using r1 r2 by (simp_all add: read_n_Inr)
  have f2le: "s_pos f2 \<le> length (s_content f2)"
    using r1 r2 "1.prems"(2) by (blast dest: read_n_pos_le)
  show ?case
  proof (cases "name = tag_CHIX")
    case True
    with "1.prems" r1 r2 d obtain idx f3 where
      c: "read_chix (nat (L div 9)) Map.empty f2 = Inr (idx, f3)"
      and s: "scan (h\<lparr>character_index := Some idx\<rparr>) f3 rtm = Inr (h', f')"
      by (subst (asm) scan.simps) (auto split: sum.splits prod.splits)
    note st = read_chix_stream [OF c]
    have f3: "s_content f3 = s_content f" "s_kind f3 = s_kind f" "s_closed f3 = s_closed f"
      using st f2 by simp_all
    have f3le: "s_pos f3 \<le> length (s_content f3)"
      using st f2le by blast
    have post: "scan_post (h\<lparr>character_index := Some idx\<rparr>) f3 rtm h' f'"
      using "1.IH"(1) [OF r1 refl r2 refl d True c refl s f3le] .
    have "s_pos f \<le> s_pos f3" using read_chix_le_pos [OF c] f2 by simp
    then show ?thesis
      using f3 by (intro scan_post_step [OF post]) simp_all
  next
    case notchix: False
    show ?thesis
    proof (cases "name = tag_DATA")
      case True
      with "1.prems" r1 r2 d have "on_data h f2 rtm = Inr (h', f')"
        by (simp add: scan_DATA)
      from on_data_result [OF this f2le] show ?thesis
        using f2 f2le unfolding scan_post_def by (cases rtm) auto
    next
      case False
      with "1.prems" r1 r2 d notchix obtain data f3 h1 where
        c: "read_n f2 L = Inr (data, f3)" and sf: "set_field h name data = Inr h1"
        and s: "scan h1 f3 rtm = Inr (h', f')"
        by (subst (asm) scan.simps) (auto split: sum.splits prod.splits)
      note st = read_n_Inr [OF c]
      have f3: "s_content f3 = s_content f" "s_kind f3 = s_kind f" "s_closed f3 = s_closed f"
        using st f2 by simp_all
      have f3le: "s_pos f3 \<le> length (s_content f3)"
        using c f2le by (rule read_n_pos_le)
      have post: "scan_post h1 f3 rtm h' f'"
        using "1.IH"(2) [OF r1 refl r2 refl d notchix False c refl sf s f3le] .
      have "s_pos f \<le> s_pos f3" using read_n_le_pos [OF c] f2 by simp
      then show ?thesis
        using f3 set_field_flags [OF sf] by (intro scan_post_step [OF post]) simp_all
    qed
  qed
qed

section \<open>A small font to run the reader on\<close>

text \<open>
  Magic, a \<open>CHIX\<close> section of two records (\<open>?\<close> at file offset 46, \<open>A\<close> at file
  offset 57), and a \<open>DATA\<close> section of two 8 by 1 glyphs. The payload of \<open>DATA\<close>
  starts at byte 46 of the 68 bytes. \<open>open_lookup\<close> is what a caller writes as
  \<open>PF2(path, read_to_mem=..., missing_character=...)[char]\<close>. The examples run on a
  machine where a read can allocate \<open>2 ^ 32\<close> bytes and no more.
\<close>

definition example_max_read :: nat where
  "example_max_read = 2 ^ 32"

definition example_font :: "byte list" where
  "example_font =
     magic
     @ tag_CHIX @ [0, 0, 0, 18]
     @ [0, 0, 0, 63,  0,  0, 0, 0, 46]
     @ [0, 0, 0, 65,  0,  0, 0, 0, 57]
     @ tag_DATA @ [0, 0, 0, 22]
     @ [0, 8,  0, 1,  0, 0,  0, 0,  0, 8,  0x3C]
     @ [0, 8,  0, 1,  0, 1,  0xFF, 0xFE,  0, 9,  0x7E]"

definition open_lookup ::
  "nat \<Rightarrow> byte list \<Rightarrow> bool \<Rightarrow> int \<Rightarrow> int \<Rightarrow> error + Character" where
  "open_lookup max_read file_bytes read_to_mem missing_character char_point =
     (case init_pf2 max_read file_bytes read_to_mem missing_character of Inl e \<Rightarrow> Inl e
      | Inr (h, f) \<Rightarrow>
     (case get_char h char_point of Inl e \<Rightarrow> Inl e | Inr (c, h') \<Rightarrow> Inr c))"

definition example_index :: char_index where
  "example_index = [63 \<mapsto> (0, 46), 65 \<mapsto> (0, 57)]"

definition example_handle :: "int \<Rightarrow> pf2" where
  "example_handle mc =
     (new_pf2 mc False)
       \<lparr>is_pf2 := True, character_index := Some example_index,
        data_offset := Some 0, data_io := Some ((open_rb example_max_read example_font)\<lparr>s_pos := 46\<rparr>)\<rparr>"

lemma read_chix_numeral:
  "read_chix (numeral k) idx f = read_chix (Suc (pred_numeral k)) idx f"
  by (simp only: numeral_eq_Suc)

lemmas stream_defs = open_rb_def bytes_io_def read_n_def read_all_def seek_def tell_def
  close_stream_def Let_def

lemmas codec_defs = uint32be_def int32be_def uint16be_def int16be_def

lemmas tag_defs = magic_def tag_CHIX_def tag_DATA_def tag_NAME_def tag_FAMI_def tag_WEIG_def
  tag_SLAN_def tag_PTSZ_def tag_MAXW_def tag_MAXH_def tag_ASCE_def tag_DESC_def

lemmas open_defs = init_pf2_def new_pf2_def scan.simps read_chix_numeral on_data_def
  set_field_def

lemmas lookup_defs = get_char_def find_info_def read_glyph_def

lemma init_example_font:
  "init_pf2 example_max_read example_font False mc = Inr (example_handle mc, (open_rb example_max_read example_font)\<lparr>s_pos := 46\<rparr>)"
  by (simp add: example_font_def example_handle_def example_index_def
        open_defs stream_defs codec_defs tag_defs)

lemma init_success:
  assumes "init_pf2 max_read file_bytes rtm mc = Inr (h, f)" and "is_pf2 h"
  shows "\<exists>f1. read_n (open_rb max_read file_bytes) 12 = Inr (magic, f1)
            \<and> scan ((new_pf2 mc rtm)\<lparr>is_pf2 := True\<rparr>) f1 rtm = Inr (h, f)
            \<and> scan_post ((new_pf2 mc rtm)\<lparr>is_pf2 := True\<rparr>) f1 rtm h f
            \<and> s_content f1 = file_bytes \<and> s_pos f1 = 12 \<and> \<not> s_closed f1
            \<and> s_kind f1 = FileIO"
proof -
  obtain m f1 where r: "read_n (open_rb max_read file_bytes) 12 = Inr (m, f1)"
    by (simp add: read_n_def open_rb_def)
  have m: "m = magic"
  proof (rule ccontr)
    assume "m \<noteq> magic"
    with assms(1) r have "h = (new_pf2 mc rtm)\<lparr>is_pf2 := False\<rparr>"
      by (simp add: init_pf2_def)
    with assms(2) show False by simp
  qed
  with assms(1) r have s: "scan ((new_pf2 mc rtm)\<lparr>is_pf2 := True\<rparr>) f1 rtm = Inr (h, f)"
    by (simp add: init_pf2_def)
  have st: "s_content f1 = file_bytes" "s_pos f1 = length m" "\<not> s_closed f1" "s_kind f1 = FileIO"
    using read_n_Inr [OF r] by (simp_all add: open_rb_def)
  have "s_pos f1 \<le> length (s_content f1)"
    using r by (rule read_n_pos_le) (simp add: open_rb_def)
  from scan_result [OF s this] r m s st show ?thesis
    by (simp add: magic_def)
qed

lemma close_twice:
  assumes "data_io h = Some s"
  shows "\<exists>h1. close h = Inr h1 \<and> close h1 = Inr h1 \<and> (in_memory h \<longrightarrow> h1 = h)"
  using assms by (simp add: close_def close_stream_def)

lemma get_char_handle:
  assumes "get_char h cp = Inr (g, h2)"
  shows "\<exists>d. data_io h2 = Some d \<and> in_memory h2 = in_memory h"
  using assms by (auto simp: get_char_def split: sum.splits prod.splits option.splits)

section \<open>C5: a file that does not start with the magic\<close>

lemma new_pf2_not_pf2: "new_pf2 mc rtm\<lparr>is_pf2 := False\<rparr> = new_pf2 mc rtm"
  by (simp add: new_pf2_def)

text \<open>
  C5: when the first 12 bytes are not the magic, \<open>__init__\<close> returns a handle with
  \<open>is_pf2\<close> false and nothing else assigned, after the one read of 12 bytes (the file
  cursor stands at \<open>min 12 (length file_bytes)\<close>); every later \<open>get_char\<close> on that
  handle raises \<open>AttributeError\<close>, whatever the code point.
\<close>

theorem C5_bad_magic_invalid_handle:
  assumes "take 12 file_bytes \<noteq> magic"
  shows "init_pf2 max_read file_bytes rtm mc =
           Inr (new_pf2 mc rtm, (open_rb max_read file_bytes)\<lparr>s_pos := min 12 (length file_bytes)\<rparr>)
         \<and> \<not> is_pf2 (new_pf2 mc rtm)
         \<and> character_index (new_pf2 mc rtm) = None
         \<and> data_io (new_pf2 mc rtm) = None
         \<and> data_offset (new_pf2 mc rtm) = None
         \<and> font_name (new_pf2 mc rtm) = None
         \<and> family (new_pf2 mc rtm) = None
         \<and> weight (new_pf2 mc rtm) = None
         \<and> slant (new_pf2 mc rtm) = None
         \<and> point_size (new_pf2 mc rtm) = None
         \<and> max_width (new_pf2 mc rtm) = None
         \<and> max_height (new_pf2 mc rtm) = None
         \<and> ascent (new_pf2 mc rtm) = None
         \<and> descent (new_pf2 mc rtm) = None
         \<and> get_char (new_pf2 mc rtm) cp = Inl AttributeError"
proof -
  have "read_n (open_rb max_read file_bytes) 12 =
          Inr (take 12 file_bytes, (open_rb max_read file_bytes)\<lparr>s_pos := min 12 (length file_bytes)\<rparr>)"
    by (simp add: read_n_def open_rb_def min_def)
  then have "init_pf2 max_read file_bytes rtm mc =
           Inr (new_pf2 mc rtm, (open_rb max_read file_bytes)\<lparr>s_pos := min 12 (length file_bytes)\<rparr>)"
    using assms by (simp add: init_pf2_def new_pf2_not_pf2)
  moreover have "get_char (new_pf2 mc rtm) cp = Inl AttributeError"
    by (simp add: get_char_def find_info_def new_pf2_def)
  ultimately show ?thesis by (simp add: new_pf2_def)
qed

theorem C5_bad_magic_invalid_handle_witness:
  "init_pf2 example_max_read [0x46, 0x49, 0x4C, 0x45, 0, 0, 0, 4, 0x50, 0x46, 0x46, 0x33, 0x44, 0x41] False 63 =
     Inr (new_pf2 63 False,
          (open_rb example_max_read [0x46, 0x49, 0x4C, 0x45, 0, 0, 0, 4, 0x50, 0x46, 0x46, 0x33, 0x44, 0x41])
            \<lparr>s_pos := 12\<rparr>)
   \<and> get_char (new_pf2 63 False) 65 = Inl AttributeError"
  using C5_bad_magic_invalid_handle
    [where file_bytes = "[0x46, 0x49, 0x4C, 0x45, 0, 0, 0, 4, 0x50, 0x46, 0x46, 0x33, 0x44, 0x41]"
       and max_read = example_max_read and rtm = False and mc = 63 and cp = 65]
  by (simp add: magic_def)

section \<open>C4: the missing-character fallback\<close>



section \<open>C9: closing a handle\<close>

text \<open>
  C9: on a handle that \<open>__init__\<close> returned with \<open>is_pf2\<close> set, \<open>close\<close> returns
  normally, a second \<open>close\<close> returns normally and changes nothing more, and with
  \<open>read_to_mem\<close> it changes nothing at all; the same holds on the handle as any
  successful \<open>get_char\<close> leaves it. A glyph is a value made of integers and an
  immutable \<open>bytes\<close>: \<open>close\<close> takes and returns the handle only.
\<close>

theorem C9_close_is_idempotent:
  assumes "init_pf2 max_read file_bytes rtm mc = Inr (h, f)" and "is_pf2 h"
  shows "(\<exists>h1. close h = Inr h1 \<and> close h1 = Inr h1 \<and> (rtm \<longrightarrow> h1 = h))
       \<and> (\<forall>cp g h2. get_char h cp = Inr (g, h2) \<longrightarrow>
             (\<exists>h3. close h2 = Inr h3 \<and> close h3 = Inr h3 \<and> (rtm \<longrightarrow> h3 = h2)))"
proof -
  from init_success [OF assms] obtain f1 where
    post: "scan_post ((new_pf2 mc rtm)\<lparr>is_pf2 := True\<rparr>) f1 rtm h f" by blast
  then have mem: "in_memory h = rtm"
    by (simp add: scan_post_def new_pf2_def)
  from post obtain s where s: "data_io h = Some s"
    unfolding scan_post_def by (cases rtm) auto
  have a: "\<exists>h1. close h = Inr h1 \<and> close h1 = Inr h1 \<and> (rtm \<longrightarrow> h1 = h)"
    using close_twice [OF s] mem by simp
  have b: "\<exists>h3. close h2 = Inr h3 \<and> close h3 = Inr h3 \<and> (rtm \<longrightarrow> h3 = h2)"
    if "get_char h cp = Inr (g, h2)" for cp g h2
  proof -
    from get_char_handle [OF that] obtain d where
      "data_io h2 = Some d" "in_memory h2 = in_memory h" by blast
    then show ?thesis using close_twice [of h2 d] mem by simp
  qed
  from a b show ?thesis by blast
qed

theorem C9_close_is_idempotent_witness:
  "init_pf2 example_max_read example_font False 63 = Inr (example_handle 63, (open_rb example_max_read example_font)\<lparr>s_pos := 46\<rparr>)
   \<and> is_pf2 (example_handle 63)
   \<and> (\<exists>h1. close (example_handle 63) = Inr h1 \<and> close h1 = Inr h1)
   \<and> (\<exists>g h2 h3. get_char (example_handle 63) 65 = Inr (g, h2)
         \<and> close h2 = Inr h3 \<and> close h3 = Inr h3)
   \<and> (\<exists>h f. init_pf2 example_max_read example_font True 63 = Inr (h, f) \<and> is_pf2 h \<and> close h = Inr h)"
proof -
  have i: "init_pf2 example_max_read example_font False 63
             = Inr (example_handle 63, (open_rb example_max_read example_font)\<lparr>s_pos := 46\<rparr>)"
    by (rule init_example_font)
  have p: "is_pf2 (example_handle 63)" by (simp add: example_handle_def)
  have g: "\<exists>g h2. get_char (example_handle 63) 65 = Inr (g, h2)"
    by (simp add: example_handle_def example_index_def example_font_def new_pf2_def
          lookup_defs stream_defs codec_defs tag_defs)
  have "\<exists>h f. init_pf2 example_max_read example_font True 63 = Inr (h, f) \<and> is_pf2 h"
    by (simp add: example_font_def open_defs stream_defs codec_defs tag_defs)
  then obtain hm fm where
    im: "init_pf2 example_max_read example_font True 63 = Inr (hm, fm)" and pm: "is_pf2 hm" by blast
  from C9_close_is_idempotent [OF im pm] have "close hm = Inr hm" by auto
  with im pm have m: "\<exists>h f. init_pf2 example_max_read example_font True 63 = Inr (h, f) \<and> is_pf2 h
      \<and> close h = Inr h" by blast
  from C9_close_is_idempotent [OF i p] i p g m show ?thesis by blast
qed

section \<open>Reading an index section\<close>

text \<open>
  With \<open>9 * n\<close> bytes left, the \<open>n\<close> rounds of the \<open>CHIX\<close> loop all succeed and
  leave the cursor \<open>9 * n\<close> bytes further; with fewer, one of the reads of some round
  comes back short and the decoding of it raises \<open>IndexError\<close>.
\<close>

lemma read_n_enough:
  assumes "\<not> s_closed f" "nat n \<le> remaining f" "0 \<le> n" "n < 2 ^ 32"
  shows "read_n f n = Inr (take (nat n) (drop (s_pos f) (s_content f)), f\<lparr>s_pos := s_pos f + nat n\<rparr>)"
    and "length (take (nat n) (drop (s_pos f) (s_content f))) = nat n"
  using assms by (auto simp: read_n_def remaining_def Let_def min_def)

lemma int32be_total: "4 \<le> length b \<Longrightarrow> \<exists>v. int32be b = Inr v"
  by (simp add: int32be_def uint32be_def)

lemma singleton_list: "length xs = 1 \<Longrightarrow> \<exists>x. xs = [x]"
  by (cases xs) auto

lemma read_chix_full:
  assumes "\<not> s_closed f" and "9 * n \<le> remaining f"
  shows "\<exists>idx'. read_chix n idx f = Inr (idx', f\<lparr>s_pos := s_pos f + 9 * n\<rparr>)"
  using assms
proof (induction n arbitrary: idx f)
  case 0
  then show ?case by simp
next
  case (Suc n)
  let ?f1 = "f\<lparr>s_pos := s_pos f + 4\<rparr>"
  let ?f2 = "f\<lparr>s_pos := s_pos f + 5\<rparr>"
  let ?f3 = "f\<lparr>s_pos := s_pos f + 9\<rparr>"
  let ?cb = "take 4 (drop (s_pos f) (s_content f))"
  let ?c = "take 1 (drop (s_pos f + 4) (s_content f))"
  let ?ob = "take 4 (drop (s_pos f + 5) (s_content f))"
  have rem: "9 \<le> remaining f" "9 * n \<le> remaining ?f3"
    using Suc.prems(2) by (simp_all add: remaining_def)
  have r1: "read_n f 4 = Inr (?cb, ?f1)" and l1: "length ?cb = 4"
    using read_n_enough [of f 4] Suc.prems(1) rem(1) by simp_all
  have r2: "read_n ?f1 1 = Inr (?c, ?f2)" and l2: "length ?c = 1"
    using read_n_enough [of ?f1 1] Suc.prems(1) rem(1) by (simp_all add: remaining_def)
  have r3: "read_n ?f2 4 = Inr (?ob, ?f3)" and l3: "length ?ob = 4"
    using read_n_enough [of ?f2 4] Suc.prems(1) rem(1) by (simp_all add: remaining_def)
  obtain cp where cp: "int32be ?cb = Inr cp"
    using int32be_total [OF eq_imp_le [OF l1 [symmetric]]] by blast
  obtain off where off: "int32be ?ob = Inr off"
    using int32be_total [OF eq_imp_le [OF l3 [symmetric]]] by blast
  obtain x where x: "?c = [x]" using singleton_list [OF l2] by blast
  have step: "read_chix (Suc n) idx f = read_chix n (idx(cp \<mapsto> (uint x, off))) ?f3"
    by (simp only: read_chix.simps r1 r2 r3 cp off x sum.case prod.case list.case)
  have c3: "\<not> s_closed ?f3" using Suc.prems(1) by simp
  from Suc.IH [OF c3 rem(2), of "idx(cp \<mapsto> (uint x, off))"]
  obtain idx' where "read_chix n (idx(cp \<mapsto> (uint x, off))) ?f3
       = Inr (idx', ?f3\<lparr>s_pos := s_pos ?f3 + 9 * n\<rparr>)" by blast
  then show ?case using step by (simp add: add.assoc)
qed

lemma read_n_open:
  assumes "\<not> s_closed f" "0 \<le> n"
    and "n < 2 ^ 32 \<or> s_kind f = BytesIO \<or> n \<le> int (s_max_read f)"
  shows "read_n f n = Inr (take (nat n) (drop (s_pos f) (s_content f)),
                           f\<lparr>s_pos := s_pos f + min (nat n) (remaining f)\<rparr>)"
  using assms by (auto simp: read_n_def remaining_def Let_def min_def)


lemma int32be_short: "length b < 4 \<Longrightarrow> int32be b = Inl IndexError"
  by (simp add: int32be_def uint32be_def)

lemma read_chix_first_short:
  assumes "\<not> s_closed f" and "remaining f < 9"
  shows "read_chix (Suc n) idx f = Inl IndexError"
proof -
  let ?cb = "take 4 (drop (s_pos f) (s_content f))"
  let ?f1 = "f\<lparr>s_pos := s_pos f + min 4 (remaining f)\<rparr>"
  have r1: "read_n f 4 = Inr (?cb, ?f1)"
    using read_n_open [of f 4] assms(1) by simp
  show ?thesis
  proof (cases "remaining f < 4")
    case True
    then have "length ?cb < 4" by (simp add: remaining_def)
    then have "int32be ?cb = Inl IndexError" by (rule int32be_short)
    then show ?thesis by (simp only: read_chix.simps r1 sum.case prod.case)
  next
    case False
    then have l1: "4 \<le> length ?cb" by (simp add: remaining_def)
    obtain cp where cp: "int32be ?cb = Inr cp" using int32be_total [OF l1] by blast
    have f1: "?f1 = f\<lparr>s_pos := s_pos f + 4\<rparr>" using False by (simp add: min_def)
    let ?c = "take 1 (drop (s_pos f + 4) (s_content f))"
    let ?f2 = "f\<lparr>s_pos := s_pos f + 4 + min 1 (remaining f - 4)\<rparr>"
    have r2: "read_n ?f1 1 = Inr (?c, ?f2)"
      using read_n_open [of "f\<lparr>s_pos := s_pos f + 4\<rparr>" 1] assms(1) f1
      by (simp add: remaining_def)
    show ?thesis
    proof (cases "remaining f < 5")
      case True
      then have "?c = []" by (simp add: remaining_def)
      then show ?thesis
        by (simp only: read_chix.simps r1 r2 cp sum.case prod.case list.case)
    next
      case five: False
      then have "length ?c = 1" by (simp add: remaining_def)
      then obtain x where x: "?c = [x]" using singleton_list by blast
      have f2: "?f2 = f\<lparr>s_pos := s_pos f + 5\<rparr>" using five by (simp add: min_def)
      let ?ob = "take 4 (drop (s_pos f + 5) (s_content f))"
      obtain f3 where r3: "read_n ?f2 4 = Inr (?ob, f3)"
        using read_n_open [of "f\<lparr>s_pos := s_pos f + 5\<rparr>" 4] assms(1) f2 by simp
      have "length ?ob < 4" using assms(2) by (simp add: remaining_def)
      then have "int32be ?ob = Inl IndexError" by (rule int32be_short)
      then show ?thesis
        by (simp only: read_chix.simps r1 r2 r3 cp x sum.case prod.case list.case)
    qed
  qed
qed

lemma read_chix_short:
  assumes "\<not> s_closed f" and "remaining f < 9 * n"
  shows "read_chix n idx f = Inl IndexError"
  using assms
proof (induction n arbitrary: idx f)
  case 0
  then show ?case by simp
next
  case (Suc n)
  show ?case
  proof (cases "remaining f < 9")
    case True
    with Suc.prems(1) show ?thesis by (rule read_chix_first_short)
  next
    case False
    then have "9 * 1 \<le> remaining f" by simp
    from read_chix_full [OF Suc.prems(1) this, of idx]
    obtain idx1 where one: "read_chix 1 idx f = Inr (idx1, f\<lparr>s_pos := s_pos f + 9\<rparr>)"
      by auto
    let ?f3 = "f\<lparr>s_pos := s_pos f + 9\<rparr>"
    have "remaining ?f3 < 9 * n" using Suc.prems(2) False by (simp add: remaining_def)
    moreover have "\<not> s_closed ?f3" using Suc.prems(1) by simp
    ultimately have ih: "read_chix n idx1 ?f3 = Inl IndexError" by (rule Suc.IH [rotated])
    from one ih show ?thesis
      by (auto split: sum.splits prod.splits list.splits)
  qed
qed


lemma int32be_nth:
  assumes "4 \<le> length b"
  shows "int32be b = Inr (uint (b ! 0) * 2 ^ 32 + uint (b ! 1) * 2 ^ 16
                          + uint (b ! 2) * 2 ^ 8 + uint (b ! 3))"
proof -
  define lo where "lo = uint (b ! 1) * 2 ^ 16 + uint (b ! 2) * 2 ^ 8 + uint (b ! 3)"
  define u where "u = uint (b ! 0) * 2 ^ 32 + lo"
  have lo: "0 \<le> lo" "lo < 2 ^ 31"
    using uint_byte_bounds [of "b ! 1"] uint_byte_bounds [of "b ! 2"]
      uint_byte_bounds [of "b ! 3"]
    by (auto simp: lo_def)
  have "lo div 2 ^ 31 = 0"
    using lo by (intro div_pos_pos_trivial)
  moreover have "u = lo + (uint (b ! 0) * 2) * 2 ^ 31" by (simp add: u_def)
  moreover have "(lo + (uint (b ! 0) * 2) * 2 ^ 31) div 2 ^ 31
                   = uint (b ! 0) * 2 + lo div 2 ^ 31"
    by (rule div_mult_self1) simp
  ultimately have "u div 2 ^ 31 = uint (b ! 0) * 2" by simp
  then have z: "drop_bit 31 u AND 1 = 0"
    by (simp add: drop_bit_eq_div and_one_eq)
  have "uint32be b = Inr u"
    using assms by (simp add: uint32be_def push_bit_eq_mult u_def lo_def)
  then have "int32be b = Inr u"
    using z by (simp add: int32be_def)
  then show ?thesis by (simp add: u_def lo_def)
qed

lemma int32be_nonneg:
  assumes "int32be b = Inr v"
  shows "0 \<le> v"
proof -
  have "4 \<le> length b" using assms by (rule int32be_Inr_length)
  from int32be_nth [OF this] assms
  have "v = uint (b ! 0) * 2 ^ 32 + uint (b ! 1) * 2 ^ 16 + uint (b ! 2) * 2 ^ 8 + uint (b ! 3)"
    by simp
  then show ?thesis by simp
qed

lemma take4_drop_nth:
  assumes "p + 4 \<le> length xs"
  shows "length (take 4 (drop p xs)) = 4"
    and "take 4 (drop p xs) ! 0 = xs ! p"
    and "take 4 (drop p xs) ! 1 = xs ! (p + 1)"
    and "take 4 (drop p xs) ! 2 = xs ! (p + 2)"
    and "take 4 (drop p xs) ! 3 = xs ! (p + 3)"
  using assms by simp_all

text \<open>
  One round of the \<open>CHIX\<close> loop, with its nine bytes there: the entry of the code
  point is overwritten (a later record of the same code point wins). \<open>field32\<close> is
  what \<open>int32be\<close> makes of the four bytes at a position.
\<close>

definition field32 :: "byte list \<Rightarrow> nat \<Rightarrow> int" where
  "field32 c p =
     uint (c ! p) * 2 ^ 32 + uint (c ! (p + 1)) * 2 ^ 16 + uint (c ! (p + 2)) * 2 ^ 8
     + uint (c ! (p + 3))"

lemma int32be_field:
  assumes "p + 4 \<le> length c"
  shows "int32be (take 4 (drop p c)) = Inr (field32 c p)"
proof -
  note t = take4_drop_nth [OF assms]
  have "4 \<le> length (take 4 (drop p c))" by (simp only: t(1))
  from int32be_nth [OF this] show ?thesis
    by (simp only: t field32_def)
qed

lemma read_chix_record:
  assumes "\<not> s_closed f" and "s_pos f + 9 \<le> length (s_content f)"
  shows "read_chix (Suc n) idx f =
           read_chix n
             (idx(field32 (s_content f) (s_pos f)
                    \<mapsto> (uint (s_content f ! (s_pos f + 4)), field32 (s_content f) (s_pos f + 5))))
             (f\<lparr>s_pos := s_pos f + 9\<rparr>)"
proof -
  let ?c = "s_content f" and ?p = "s_pos f"
  let ?f1 = "f\<lparr>s_pos := ?p + 4\<rparr>"
  let ?f2 = "f\<lparr>s_pos := ?p + 5\<rparr>"
  let ?f3 = "f\<lparr>s_pos := ?p + 9\<rparr>"
  have rem: "9 \<le> remaining f" using assms(2) by (simp add: remaining_def)
  have r1: "read_n f 4 = Inr (take 4 (drop ?p ?c), ?f1)"
    using read_n_enough(1) [of f 4] assms(1) rem by simp
  have r2: "read_n ?f1 1 = Inr (take 1 (drop (?p + 4) ?c), ?f2)"
    using read_n_enough(1) [of ?f1 1] assms(1) rem by (simp add: remaining_def)
  have r3: "read_n ?f2 4 = Inr (take 4 (drop (?p + 5) ?c), ?f3)"
    using read_n_enough(1) [of ?f2 4] assms(1) rem by (simp add: remaining_def)
  have cp: "int32be (take 4 (drop ?p ?c)) = Inr (field32 ?c ?p)"
    using assms(2) by (intro int32be_field) simp
  have off: "int32be (take 4 (drop (?p + 5) ?c)) = Inr (field32 ?c (?p + 5))"
    using assms(2) by (intro int32be_field) simp
  have "take 1 (drop (?p + 4) ?c) = [?c ! (?p + 4)]"
    using assms(2) by (simp add: take_Suc_conv_app_nth)
  then obtain rest where x: "take 1 (drop (?p + 4) ?c) = ?c ! (?p + 4) # rest" by blast
  show ?thesis
    by (simp only: read_chix.simps r1 r2 r3 cp off x sum.case prod.case list.case)
qed

text \<open>
  Two more files: \<open>shifted_font\<close> declares a \<open>CHIX\<close> length of 10 for one record
  and one stray byte; \<open>big_offset_font\<close> has one record whose offset field is
  01 00 00 00.
\<close>

definition shifted_font :: "byte list" where
  "shifted_font =
     magic
     @ tag_CHIX @ [0, 0, 0, 10]
     @ [0, 0, 0, 65,  0,  0, 0, 0, 38] @ [0xAA]
     @ tag_DATA @ [0, 0, 0, 11]
     @ [0, 8,  0, 1,  0, 0,  0, 0,  0, 8,  0x3C]"

definition big_offset_font :: "byte list" where
  "big_offset_font =
     magic
     @ tag_CHIX @ [0, 0, 0, 9]
     @ [0, 0, 0, 65,  0,  1, 0, 0, 0]
     @ tag_DATA @ [0, 0, 0, 0]"

lemma div9_remainder:
  assumes "0 \<le> (L :: int)"
  shows "L mod 9 \<noteq> 0 \<longrightarrow> 9 * nat (L div 9) < nat L"
proof
  assume "L mod 9 \<noteq> 0"
  then have "9 * (L div 9) < L" by presburger
  moreover have "0 \<le> L div 9" using assms by simp
  ultimately have "nat (9 * (L div 9)) < nat L" using assms by simp
  then show "9 * nat (L div 9) < nat L" by (simp add: nat_mult_distrib)
qed

section \<open>The bytes of a \<open>CHIX\<close> section beyond its last whole record\<close>

text \<open>
  When the section name is \<open>CHIX\<close> and the length field decodes to \<open>L\<close>
  (\<open>data_length\<close>), the loop reads \<open>L div 9\<close> records, that is \<open>9 * (L div 9)\<close>
  bytes, and the next round of the scan starts right there: nothing skips the
  \<open>L mod 9\<close> bytes that are left.
\<close>

lemma chix_leaves_remainder_unread:
  assumes "read_n f 4 = Inr (tag_CHIX, f1)" and "read_n f1 4 = Inr (lb, f2)"
    and "int32be lb = Inr L" and "9 * nat (L div 9) \<le> remaining f2"
  shows "\<exists>idx. read_chix (nat (L div 9)) Map.empty f2
                 = Inr (idx, f2\<lparr>s_pos := s_pos f2 + 9 * nat (L div 9)\<rparr>)
          \<and> scan h f rtm
              = scan (h\<lparr>character_index := Some idx\<rparr>)
                     (f2\<lparr>s_pos := s_pos f2 + 9 * nat (L div 9)\<rparr>) rtm
          \<and> (L mod 9 \<noteq> 0 \<longrightarrow> s_pos f2 + 9 * nat (L div 9) < s_pos f2 + nat L)"
proof -
  have open2: "\<not> s_closed f2" using read_n_Inr [OF assms(2)] read_n_Inr [OF assms(1)] by simp
  from read_chix_full [OF open2 assms(4), of Map.empty] obtain idx where
    c: "read_chix (nat (L div 9)) Map.empty f2
          = Inr (idx, f2\<lparr>s_pos := s_pos f2 + 9 * nat (L div 9)\<rparr>)" by blast
  have s: "scan h f rtm = scan (h\<lparr>character_index := Some idx\<rparr>)
                     (f2\<lparr>s_pos := s_pos f2 + 9 * nat (L div 9)\<rparr>) rtm"
    by (simp add: scan_CHIX [OF assms(1,2,3)] c)
  have "0 \<le> L" using assms(3) by (rule int32be_nonneg)
  then have "L mod 9 \<noteq> 0 \<longrightarrow> 9 * nat (L div 9) < nat L" by (rule div9_remainder)
  with c s show ?thesis by auto
qed

text \<open>
  The name of the next round is the four bytes at that cursor: when they spell
  \<open>DATA\<close> the scan ends there, whatever \<open>L\<close> declared.
\<close>

lemma chix_then_data:
  assumes "read_n f 4 = Inr (tag_CHIX, f1)" and "read_n f1 4 = Inr (lb, f2)"
    and "int32be lb = Inr L" and "9 * nat (L div 9) \<le> remaining f2"
    and "read_n (f2\<lparr>s_pos := s_pos f2 + 9 * nat (L div 9)\<rparr>) 4 = Inr (tag_DATA, f4)"
    and "read_n f4 4 = Inr (lb', f5)" and "int32be lb' = Inr L'"
  shows "\<exists>idx. read_chix (nat (L div 9)) Map.empty f2
                 = Inr (idx, f2\<lparr>s_pos := s_pos f2 + 9 * nat (L div 9)\<rparr>)
          \<and> scan h f rtm = on_data (h\<lparr>character_index := Some idx\<rparr>) f5 rtm"
proof -
  from chix_leaves_remainder_unread [OF assms(1,2,3,4), of h rtm] obtain idx where
    c: "read_chix (nat (L div 9)) Map.empty f2
          = Inr (idx, f2\<lparr>s_pos := s_pos f2 + 9 * nat (L div 9)\<rparr>)"
    and s: "scan h f rtm = scan (h\<lparr>character_index := Some idx\<rparr>)
                     (f2\<lparr>s_pos := s_pos f2 + 9 * nat (L div 9)\<rparr>) rtm" by blast
  from s have "scan h f rtm = on_data (h\<lparr>character_index := Some idx\<rparr>) f5 rtm"
    by (simp add: scan_DATA [OF assms(5,6,7)])
  with c show ?thesis by blast
qed

text \<open>
  In \<open>shifted_font\<close> the stray byte is read as the first byte of the next name, AA 44
  41 54; the length that follows, 41 00 00 00, decodes to \<open>65 * 2 ^ 32\<close>, more than
  the machine of the examples can allocate.
\<close>

lemma shifted_font_next_name:
  "read_n ((open_rb example_max_read shifted_font)\<lparr>s_pos := 29\<rparr>) 4
     = Inr ([0xAA, 0x44, 0x41, 0x54], (open_rb example_max_read shifted_font)\<lparr>s_pos := 33\<rparr>)
   \<and> init_pf2 example_max_read shifted_font False 63 = Inl MemoryError"
  by (simp add: shifted_font_def example_max_read_def open_defs stream_defs codec_defs tag_defs)

section \<open>C6: the records of a \<open>CHIX\<close> section\<close>

text \<open>
  C6 says that each record holds a 4-byte big-endian code point, a compression byte and
  a 4-byte big-endian signed offset. The count \<open>L div 9\<close>, the 4 + 1 + 4 layout and
  the overwriting of a repeated code point are as C6 says (\<open>read_chix_record\<close>,
  \<open>read_chix_full\<close>), but both 4-byte fields go through \<open>int32be\<close>: opening
  \<open>big_offset_font\<close>, whose one record has the offset bytes 01 00 00 00, stores the
  offset \<open>2^32 = 4294967296\<close> for \<open>A\<close>; the big-endian value is \<open>2^24 = 16777216\<close>.
\<close>

theorem C6_index_offset_first_byte_shifted_by_32:
  "(case init_pf2 example_max_read big_offset_font False 63 of Inl e \<Rightarrow> None
    | Inr (h, f) \<Rightarrow> (case character_index h of None \<Rightarrow> None | Some idx \<Rightarrow> idx 65))
   = Some (0, 4294967296)"
  by (simp add: big_offset_font_def open_defs stream_defs codec_defs tag_defs)

section \<open>Decoding a glyph\<close>

text \<open>
  The values the 16-bit fields are compared with: the big-endian unsigned reading of two
  bytes, and its two's-complement reading with sign bit 15.
\<close>

definition u16 :: "byte \<Rightarrow> byte \<Rightarrow> int" where
  "u16 hi lo = uint hi * 2 ^ 8 + uint lo"

definition s16 :: "byte \<Rightarrow> byte \<Rightarrow> int" where
  "s16 hi lo = (if u16 hi lo < 2 ^ 15 then u16 hi lo else u16 hi lo - 2 ^ 16)"

text \<open>They are the unsigned and the signed value of the 16-bit word made of the two bytes.\<close>

lemma word_cat_u16: "(word_cat hi lo :: 16 word) = word_of_int (u16 hi lo)"
proof -
  have "concat_bit LENGTH(8) (uint lo) (uint hi) = uint hi * 2 ^ 8 + uint lo"
    using uint_byte_bounds [of lo]
    by (simp add: concat_bit_eq take_bit_eq_mod push_bit_eq_mult)
  then show ?thesis by (simp only: word_cat_eq' u16_def)
qed

lemma u16_bounds: "0 \<le> u16 hi lo \<and> u16 hi lo < 2 ^ 16"
  using uint_byte_bounds [of lo] uint_byte_bounds [of hi] by (auto simp: u16_def)

lemma u16_word: "u16 hi lo = uint (word_cat hi lo :: 16 word)"
  using u16_bounds [of hi lo]
  by (simp add: word_cat_u16 uint_word_of_int_eq take_bit_eq_mod)

lemma s16_word: "s16 hi lo = sint (word_cat hi lo :: 16 word)"
proof -
  define x where "x = u16 hi lo"
  have b: "0 \<le> x" "x < 65536" using u16_bounds [of hi lo] by (simp_all add: x_def)
  have "sint (word_cat hi lo :: 16 word) = (x + 32768) mod 65536 - 32768"
    by (simp add: word_cat_u16 int_word_sint x_def)
  also have "\<dots> = (if x < 32768 then x else x - 65536)"
  proof (cases "x < 32768")
    case True
    then have "(x + 32768) mod 65536 = x + 32768" using b by simp
    with True show ?thesis by simp
  next
    case False
    have "x + 32768 = (x - 32768) + 65536" by simp
    then have "(x + 32768) mod 65536 = ((x - 32768) + 65536) mod 65536" by (simp only:)
    also have "\<dots> = (x - 32768) mod 65536" by (rule mod_add_self2)
    also have "\<dots> = x - 32768" using False b by simp
    finally show ?thesis using False by simp
  qed
  finally show ?thesis by (simp add: s16_def x_def)
qed

lemma take2_drop:
  assumes "p + 2 \<le> length xs"
  shows "take 2 (drop p xs) = [xs ! p, xs ! (p + 1)]"
proof -
  have "length (take 2 (drop p xs)) = 2" using assms by simp
  moreover have "take 2 (drop p xs) ! 0 = xs ! p" using assms by simp
  moreover have "take 2 (drop p xs) ! 1 = xs ! (p + 1)" using assms by simp
  ultimately show ?thesis
    by (metis (no_types, lifting) One_nat_def Suc_1 length_0_conv length_Suc_conv nth_Cons_0 nth_Cons_Suc)
qed

lemma read2:
  assumes "\<not> s_closed d" and "s_pos d + 2 \<le> length (s_content d)"
  shows "read_n d 2 = Inr ([s_content d ! s_pos d, s_content d ! (s_pos d + 1)],
                           d\<lparr>s_pos := s_pos d + 2\<rparr>)"
  using assms by (simp add: read_n_def Let_def take2_drop)

lemma read2_short:
  assumes "\<not> s_closed d" and "length (s_content d) < s_pos d + 2"
  shows "\<exists>b d'. read_n d 2 = Inr (b, d') \<and> length b < 2"
  using assms by (simp add: read_n_def Let_def)

lemma uint16be_two: "uint16be [a, b] = Inr (u16 a b)"
  by (simp add: uint16be_pair u16_def)

lemma int16be_two: "int16be [a, b] = Inr (s16 a b)"
  by (simp add: int16be_pair s16_def u16_def)

lemma uint16be_short: "length b < 2 \<Longrightarrow> uint16be b = Inl IndexError"
  by (simp add: uint16be_def)

lemma int16be_short: "length b < 2 \<Longrightarrow> int16be b = Inl IndexError"
  by (simp add: int16be_def uint16be_def)

lemma u16_nonneg: "0 \<le> u16 a b"
  by (simp add: u16_def)

lemma bitmap_length_nonneg: "0 \<le> (u16 a b * u16 c d + 7) div 8"
  using u16_nonneg [of a b] u16_nonneg [of c d] by (simp add: pos_imp_zdiv_nonneg_iff)

lemma u16_less: "u16 a b < 2 ^ 16"
  using uint_byte_bounds [of a] uint_byte_bounds [of b] by (auto simp: u16_def)

lemma bitmap_length_small: "(u16 a b * u16 c d + 7) div 8 < 2 ^ 32"
proof -
  have "u16 a b * u16 c d \<le> 65535 * 65535"
    using u16_nonneg [of a b] u16_nonneg [of c d] u16_less [of a b] u16_less [of c d]
    by (intro mult_mono) simp_all
  then have "(u16 a b * u16 c d + 7) div 8 \<le> (65535 * 65535 + 7) div 8"
    by (intro zdiv_mono1) simp_all
  then show ?thesis by simp
qed

text \<open>
  \<open>read_glyph\<close> in closed form: with ten bytes left it returns a glyph, whose bitmap
  is as many of the requested bytes as the source still has; with fewer than ten, the
  decoding of the first field that came back short raises \<open>IndexError\<close>.
\<close>

lemma read_glyph_enough:
  assumes "\<not> s_closed d" and "s_pos d + 10 \<le> length (s_content d)"
  shows "read_glyph d =
     (let c = s_content d; p = s_pos d;
          w = u16 (c ! p) (c ! (p + 1));
          ht = u16 (c ! (p + 2)) (c ! (p + 3));
          bm = take (nat ((w * ht + 7) div 8)) (drop (p + 10) c)
      in Inr (\<lparr>width = w, height = ht,
                x_offset = s16 (c ! (p + 4)) (c ! (p + 5)),
                y_offset = s16 (c ! (p + 6)) (c ! (p + 7)),
                device_width = s16 (c ! (p + 8)) (c ! (p + 9)),
                bitmap_data = bm\<rparr>,
              d\<lparr>s_pos := p + 10 + length bm\<rparr>))"
proof -
  let ?c = "s_content d" and ?p = "s_pos d"
  let ?d1 = "d\<lparr>s_pos := ?p + 2\<rparr>"
  let ?d2 = "d\<lparr>s_pos := ?p + 4\<rparr>"
  let ?d3 = "d\<lparr>s_pos := ?p + 6\<rparr>"
  let ?d4 = "d\<lparr>s_pos := ?p + 8\<rparr>"
  let ?d5 = "d\<lparr>s_pos := ?p + 10\<rparr>"
  let ?w = "u16 (?c ! ?p) (?c ! (?p + 1))"
  let ?h = "u16 (?c ! (?p + 2)) (?c ! (?p + 3))"
  have r1: "read_n d 2 = Inr ([?c ! ?p, ?c ! (?p + 1)], ?d1)"
    using read2 [of d] assms by simp
  have r2: "read_n ?d1 2 = Inr ([?c ! (?p + 2), ?c ! (?p + 3)], ?d2)"
    using read2 [of ?d1] assms by (simp add: ac_simps del: add_2_eq_Suc add_2_eq_Suc')
  have r3: "read_n ?d2 2 = Inr ([?c ! (?p + 4), ?c ! (?p + 5)], ?d3)"
    using read2 [of ?d2] assms by (simp add: ac_simps del: add_2_eq_Suc add_2_eq_Suc')
  have r4: "read_n ?d3 2 = Inr ([?c ! (?p + 6), ?c ! (?p + 7)], ?d4)"
    using read2 [of ?d3] assms by (simp add: ac_simps del: add_2_eq_Suc add_2_eq_Suc')
  have r5: "read_n ?d4 2 = Inr ([?c ! (?p + 8), ?c ! (?p + 9)], ?d5)"
    using read2 [of ?d4] assms by (simp add: ac_simps del: add_2_eq_Suc add_2_eq_Suc')
  have r6: "read_n ?d5 ((?w * ?h + 7) div 8) =
      Inr (take (nat ((?w * ?h + 7) div 8)) (drop (?p + 10) ?c),
           d\<lparr>s_pos := ?p + 10 + length (take (nat ((?w * ?h + 7) div 8)) (drop (?p + 10) ?c))\<rparr>)"
    using read_n_open [of ?d5 "(?w * ?h + 7) div 8"] assms(1) bitmap_length_nonneg
      bitmap_length_small
    by (simp add: remaining_def min.commute)
  show ?thesis
    unfolding read_glyph_def Let_def
    by (simp only: r1 r2 r3 r4 r5 r6 uint16be_two int16be_two sum.case prod.case)
qed

lemma read_glyph_short:
  assumes "\<not> s_closed d" and "length (s_content d) < s_pos d + 10"
  shows "read_glyph d = Inl IndexError"
proof -
  let ?c = "s_content d" and ?p = "s_pos d"
  let ?d1 = "d\<lparr>s_pos := ?p + 2\<rparr>"
  let ?d2 = "d\<lparr>s_pos := ?p + 4\<rparr>"
  let ?d3 = "d\<lparr>s_pos := ?p + 6\<rparr>"
  let ?d4 = "d\<lparr>s_pos := ?p + 8\<rparr>"
  note cases = sum.case prod.case uint16be_two int16be_two
  show ?thesis
  proof (cases "length ?c < ?p + 2")
    case True
    from read2_short [OF assms(1) True] obtain b d' where
      rb: "read_n d 2 = Inr (b, d')" and "length b < 2" by blast
    then have ub: "uint16be b = Inl IndexError" by (simp add: uint16be_short)
    show ?thesis unfolding read_glyph_def by (simp only: rb ub cases)
  next
    case f1: False
    have r1: "read_n d 2 = Inr ([?c ! ?p, ?c ! (?p + 1)], ?d1)"
      using read2 [of d] assms(1) f1 by simp
    show ?thesis
    proof (cases "length ?c < ?p + 4")
      case True
      from read2_short [of ?d1] assms(1) True obtain b d' where
        rb: "read_n ?d1 2 = Inr (b, d')" and "length b < 2" by auto
      then have ub: "uint16be b = Inl IndexError" by (simp add: uint16be_short)
      show ?thesis unfolding read_glyph_def by (simp only: r1 rb ub cases)
    next
      case f2: False
      have r2: "read_n ?d1 2 = Inr ([?c ! (?p + 2), ?c ! (?p + 3)], ?d2)"
        using read2 [of ?d1] assms(1) f2 by (simp add: ac_simps del: add_2_eq_Suc add_2_eq_Suc')
      show ?thesis
      proof (cases "length ?c < ?p + 6")
        case True
        from read2_short [of ?d2] assms(1) True obtain b d' where
          rb: "read_n ?d2 2 = Inr (b, d')" and "length b < 2" by auto
        then have ub: "int16be b = Inl IndexError" by (simp add: int16be_short)
        show ?thesis unfolding read_glyph_def by (simp only: r1 r2 rb ub cases)
      next
        case f3: False
        have r3: "read_n ?d2 2 = Inr ([?c ! (?p + 4), ?c ! (?p + 5)], ?d3)"
          using read2 [of ?d2] assms(1) f3 by (simp add: ac_simps del: add_2_eq_Suc add_2_eq_Suc')
        show ?thesis
        proof (cases "length ?c < ?p + 8")
          case True
          from read2_short [of ?d3] assms(1) True obtain b d' where
            rb: "read_n ?d3 2 = Inr (b, d')" and "length b < 2" by auto
          then have ub: "int16be b = Inl IndexError" by (simp add: int16be_short)
          show ?thesis unfolding read_glyph_def by (simp only: r1 r2 r3 rb ub cases)
        next
          case f4: False
          have r4: "read_n ?d3 2 = Inr ([?c ! (?p + 6), ?c ! (?p + 7)], ?d4)"
            using read2 [of ?d3] assms(1) f4 by (simp add: ac_simps del: add_2_eq_Suc add_2_eq_Suc')
          from read2_short [of ?d4] assms obtain b d' where
            rb: "read_n ?d4 2 = Inr (b, d')" and "length b < 2" by auto
          then have ub: "int16be b = Inl IndexError" by (simp add: int16be_short)
          show ?thesis unfolding read_glyph_def by (simp only: r1 r2 r3 r4 rb ub cases)
        qed
      qed
    qed
  qed
qed

lemma read_glyph_closed: "s_closed d \<Longrightarrow> read_glyph d = Inl ValueError"
  by (simp add: read_glyph_def read_n_def)


lemma get_char_seek:
  assumes "find_info h cp = Inr (cflag, off)" and "data_io h = Some data"
    and "data_offset h = Some corr"
  shows "get_char h cp =
     (case seek data (off + corr) of Inl e \<Rightarrow> Inl e | Inr d0 \<Rightarrow>
     (case read_glyph d0 of Inl e \<Rightarrow> Inl e | Inr (c, d6) \<Rightarrow>
        Inr (c, h\<lparr>data_io := Some d6\<rparr>)))"
  using assms by (simp add: get_char_def)

lemma seek_Inr: "seek s k = Inr d0 \<Longrightarrow> \<not> s_closed s \<and> 0 \<le> k \<and> d0 = s\<lparr>s_pos := nat k\<rparr>"
  by (auto simp: seek_def split: if_splits)


lemma ceil8: "8 * ((n + 7) div 8) \<ge> n \<and> 8 * ((n + 7) div 8 - 1) < (n :: int)"
  by presburger

lemma min_length:
  assumes "0 \<le> (k :: int)" and "q \<le> (n :: nat)"
  shows "int (min (n - q) (nat k)) = min k (int n - int q)"
  using assms by (auto simp: min_def)

text \<open>
  \<open>truncated_font\<close> is \<open>example_font\<close> with the height of \<open>A\<close> set to 2: its
  bitmap needs two bytes and the file ends after one. \<open>example_glyph_A\<close> is the glyph
  of \<open>A\<close> in \<open>example_font\<close>.
\<close>

definition truncated_font :: "byte list" where
  "truncated_font =
     magic
     @ tag_CHIX @ [0, 0, 0, 18]
     @ [0, 0, 0, 63,  0,  0, 0, 0, 46]
     @ [0, 0, 0, 65,  0,  0, 0, 0, 57]
     @ tag_DATA @ [0, 0, 0, 22]
     @ [0, 8,  0, 1,  0, 0,  0, 0,  0, 8,  0x3C]
     @ [0, 8,  0, 2,  0, 1,  0xFF, 0xFE,  0, 9,  0x7E]"

definition example_glyph_A :: Character where
  "example_glyph_A =
     \<lparr>width = 8, height = 1, x_offset = 1, y_offset = - 2, device_width = 9,
      bitmap_data = [0x7E]\<rparr>"

lemma get_char_example_A:
  "get_char (example_handle 63) 65 =
     Inr (example_glyph_A,
          (example_handle 63)\<lparr>data_io := Some ((open_rb example_max_read example_font)\<lparr>s_pos := 68\<rparr>)\<rparr>)"
  by (simp add: example_handle_def example_index_def example_font_def example_glyph_A_def
        new_pf2_def lookup_defs stream_defs codec_defs tag_defs)

section \<open>C7: the layout of a glyph record\<close>

text \<open>
  C7 as stated, that the bitmap of every glyph returned has exactly
  \<open>ceil(width * height / 8)\<close> bytes, fails on \<open>truncated_font\<close>: the lookup of
  \<open>A\<close> returns normally an 8 by 2 glyph with a bitmap of one byte, where
  \<open>ceil(16 / 8) = 2\<close>.
\<close>

theorem C7_short_bitmap_counterexample:
  "open_lookup example_max_read truncated_font False 63 65 =
     Inr \<lparr>width = 8, height = 2, x_offset = 1, y_offset = - 2, device_width = 9,
          bitmap_data = [0x7E]\<rparr>
   \<and> length [0x7E :: byte] = 1 \<and> ((8 :: int) * 2 + 7) div 8 = 2"
  by (simp add: truncated_font_def open_lookup_def open_defs lookup_defs stream_defs
        codec_defs tag_defs)

text \<open>
  C7, amended: a lookup that returns has read a 10-byte header at the position it
  sought, in the order width (u16), height (u16), x_offset (s16), y_offset (s16),
  device_width (s16), and its bitmap is the next \<open>(width * height + 7) div 8\<close> bytes of
  the source, or all the bytes left when there are fewer: its length is the minimum of
  the two. \<open>(n + 7) div 8\<close> is \<open>ceil(n / 8)\<close>: the least \<open>k\<close> with \<open>n \<le> 8 * k\<close>.
  Width and height are any values, zero included.
\<close>

theorem C7_glyph_record_layout:
  assumes "find_info h cp = Inr (cflag, off)" and "data_io h = Some data"
    and "data_offset h = Some corr" and "get_char h cp = Inr (g, h')"
  shows "0 \<le> off + corr
     \<and> nat (off + corr) + 10 \<le> length (s_content data)
     \<and> width g = u16 (s_content data ! nat (off + corr)) (s_content data ! (nat (off + corr) + 1))
     \<and> height g = u16 (s_content data ! (nat (off + corr) + 2)) (s_content data ! (nat (off + corr) + 3))
     \<and> x_offset g = s16 (s_content data ! (nat (off + corr) + 4)) (s_content data ! (nat (off + corr) + 5))
     \<and> y_offset g = s16 (s_content data ! (nat (off + corr) + 6)) (s_content data ! (nat (off + corr) + 7))
     \<and> device_width g = s16 (s_content data ! (nat (off + corr) + 8)) (s_content data ! (nat (off + corr) + 9))
     \<and> bitmap_data g = take (nat ((width g * height g + 7) div 8))
                             (drop (nat (off + corr) + 10) (s_content data))
     \<and> int (length (bitmap_data g))
           = min ((width g * height g + 7) div 8)
                 (int (length (s_content data)) - int (nat (off + corr) + 10))
     \<and> width g * height g \<le> 8 * ((width g * height g + 7) div 8)
     \<and> 8 * ((width g * height g + 7) div 8 - 1) < width g * height g"
proof -
  let ?p = "nat (off + corr)"
  let ?d0 = "data\<lparr>s_pos := ?p\<rparr>"
  from assms obtain d0 where sk: "seek data (off + corr) = Inr d0"
    by (auto simp: get_char_seek split: sum.splits)
  from seek_Inr [OF sk] have op: "\<not> s_closed data" and nn: "0 \<le> off + corr"
    and d0: "d0 = ?d0" by simp_all
  from assms sk d0 obtain d6 where rg: "read_glyph ?d0 = Inr (g, d6)"
    by (auto simp: get_char_seek split: sum.splits prod.splits)
  have len: "?p + 10 \<le> length (s_content data)"
  proof (rule ccontr)
    assume "\<not> ?p + 10 \<le> length (s_content data)"
    then have "read_glyph ?d0 = Inl IndexError"
      using read_glyph_short [of ?d0] op by simp
    with rg show False by simp
  qed
  have "read_glyph ?d0 = Inr (g, d6)" by (rule rg)
  then have g: "g = (let c = s_content data; p = ?p;
          w = u16 (c ! p) (c ! (p + 1));
          ht = u16 (c ! (p + 2)) (c ! (p + 3));
          bm = take (nat ((w * ht + 7) div 8)) (drop (p + 10) c)
      in \<lparr>width = w, height = ht,
                x_offset = s16 (c ! (p + 4)) (c ! (p + 5)),
                y_offset = s16 (c ! (p + 6)) (c ! (p + 7)),
                device_width = s16 (c ! (p + 8)) (c ! (p + 9)),
                bitmap_data = bm\<rparr>)"
    using read_glyph_enough [of ?d0] op len by (simp add: Let_def)
  have f: "width g = u16 (s_content data ! ?p) (s_content data ! (?p + 1))"
    "height g = u16 (s_content data ! (?p + 2)) (s_content data ! (?p + 3))"
    "x_offset g = s16 (s_content data ! (?p + 4)) (s_content data ! (?p + 5))"
    "y_offset g = s16 (s_content data ! (?p + 6)) (s_content data ! (?p + 7))"
    "device_width g = s16 (s_content data ! (?p + 8)) (s_content data ! (?p + 9))"
    "bitmap_data g = take (nat ((width g * height g + 7) div 8))
                             (drop (?p + 10) (s_content data))"
    by (simp_all add: g Let_def)
  have wh: "0 \<le> (width g * height g + 7) div 8"
    by (simp only: f(1,2) bitmap_length_nonneg)
  have "length (bitmap_data g)
          = min (length (s_content data) - (?p + 10)) (nat ((width g * height g + 7) div 8))"
    by (subst f(6)) simp
  then have bl: "int (length (bitmap_data g))
           = min ((width g * height g + 7) div 8)
                 (int (length (s_content data)) - int (?p + 10))"
    using min_length [OF wh len] by (simp only:)
  note c8 = ceil8 [of "width g * height g"]
  show ?thesis
    using nn len f bl c8 by (intro conjI) blast+
qed

theorem C7_glyph_record_layout_witness:
  "get_char (example_handle 63) 65 =
     Inr (example_glyph_A,
          (example_handle 63)\<lparr>data_io := Some ((open_rb example_max_read example_font)\<lparr>s_pos := 68\<rparr>)\<rparr>)
   \<and> width example_glyph_A = u16 0 8 \<and> height example_glyph_A = u16 0 1
   \<and> x_offset example_glyph_A = s16 0 1 \<and> y_offset example_glyph_A = s16 0xFF 0xFE
   \<and> device_width example_glyph_A = s16 0 9
   \<and> bitmap_data example_glyph_A = take 1 (drop 67 example_font)
   \<and> int (length (bitmap_data example_glyph_A)) = min 1 (68 - 67)"
proof -
  have fi: "find_info (example_handle 63) 65 = Inr (0, 57)"
    by (simp add: find_info_def example_handle_def example_index_def new_pf2_def)
  have di: "data_io (example_handle 63) = Some ((open_rb example_max_read example_font)\<lparr>s_pos := 46\<rparr>)"
    and dof: "data_offset (example_handle 63) = Some 0"
    by (simp_all add: example_handle_def new_pf2_def)
  have nths: "example_font ! 57 = 0" "example_font ! 58 = 8" "example_font ! 59 = 0"
    "example_font ! 60 = 1" "example_font ! 61 = 0" "example_font ! 62 = 1"
    "example_font ! 63 = 0xFF" "example_font ! 64 = 0xFE" "example_font ! 65 = 0"
    "example_font ! 66 = 9" "length example_font = 68"
    by (simp_all add: example_font_def tag_defs)
  have wh: "(width example_glyph_A * height example_glyph_A + 7) div 8 = 1"
    by (simp add: example_glyph_A_def)
  from C7_glyph_record_layout [OF fi di dof get_char_example_A] get_char_example_A nths wh
  show ?thesis by (simp add: open_rb_def)
qed

section \<open>Reads that come back short\<close>


lemma scan_chix_short:
  assumes "read_n f 4 = Inr (tag_CHIX, f1)" and "read_n f1 4 = Inr (lb, f2)"
    and "int32be lb = Inr L" and "remaining f2 < 9 * nat (L div 9)"
  shows "scan h f rtm = Inl IndexError"
proof -
  have "\<not> s_closed f2" using read_n_Inr [OF assms(2)] read_n_Inr [OF assms(1)] by simp
  then have "read_chix (nat (L div 9)) Map.empty f2 = Inl IndexError"
    using assms(4) by (rule read_chix_short)
  then show ?thesis by (simp add: scan_CHIX [OF assms(1,2,3)])
qed






section \<open>C8: truncated input\<close>




section \<open>Where a lookup reads\<close>

text \<open>
  \<open>relative_font\<close> is \<open>example_font\<close> with the offsets of its two index entries
  counted from the first byte of the \<open>DATA\<close> payload (0 and 11) instead of from the
  first byte of the file (46 and 57).
\<close>

definition relative_font :: "byte list" where
  "relative_font =
     magic
     @ tag_CHIX @ [0, 0, 0, 18]
     @ [0, 0, 0, 63,  0,  0, 0, 0, 0]
     @ [0, 0, 0, 65,  0,  0, 0, 0, 11]
     @ tag_DATA @ [0, 0, 0, 22]
     @ [0, 8,  0, 1,  0, 0,  0, 0,  0, 8,  0x3C]
     @ [0, 8,  0, 1,  0, 1,  0xFF, 0xFE,  0, 9,  0x7E]"

text \<open>
  C3's reading of an index offset, written out for comparison with \<open>get_char\<close>: the
  glyph whose header starts at the \<open>k\<close>-th byte of the data section, \<open>k\<close> being the
  offset of the entry; the data section starts where the scan leaves the file.
\<close>

definition lookup_relative_to_data ::
  "nat \<Rightarrow> byte list \<Rightarrow> int \<Rightarrow> int \<Rightarrow> error + Character" where
  "lookup_relative_to_data max_read file_bytes missing_character char_point =
     (case init_pf2 max_read file_bytes False missing_character of Inl e \<Rightarrow> Inl e
      | Inr (h, f) \<Rightarrow>
     (case find_info h char_point of Inl e \<Rightarrow> Inl e | Inr (cflag, k) \<Rightarrow>
     (case seek f (int (s_pos f) + k) of Inl e \<Rightarrow> Inl e | Inr d0 \<Rightarrow>
     (case read_glyph d0 of Inl e \<Rightarrow> Inl e | Inr (g, d6) \<Rightarrow> Inr g))))"

lemma read_glyph_Inr:
  assumes "read_glyph d = Inr (g, d6)"
  shows "\<not> s_closed d \<and> s_pos d + 10 \<le> length (s_content d)
     \<and> width g = u16 (s_content d ! s_pos d) (s_content d ! (s_pos d + 1))
     \<and> height g = u16 (s_content d ! (s_pos d + 2)) (s_content d ! (s_pos d + 3))
     \<and> x_offset g = s16 (s_content d ! (s_pos d + 4)) (s_content d ! (s_pos d + 5))
     \<and> y_offset g = s16 (s_content d ! (s_pos d + 6)) (s_content d ! (s_pos d + 7))
     \<and> device_width g = s16 (s_content d ! (s_pos d + 8)) (s_content d ! (s_pos d + 9))"
proof -
  have op: "\<not> s_closed d"
    using assms read_glyph_closed [of d] by auto
  have len: "s_pos d + 10 \<le> length (s_content d)"
  proof (rule ccontr)
    assume "\<not> s_pos d + 10 \<le> length (s_content d)"
    then have "read_glyph d = Inl IndexError"
      using read_glyph_short [OF op] by simp
    with assms show False by simp
  qed
  from read_glyph_enough [OF op len] assms op len show ?thesis
    by (auto simp: Let_def)
qed

lemma init_streaming:
  assumes "init_pf2 max_read file_bytes False mc = Inr (h, f)" and "is_pf2 h"
  shows "data_io h = Some f \<and> data_offset h = Some 0 \<and> s_content f = file_bytes
         \<and> \<not> s_closed f"
proof -
  from init_success [OF assms] obtain f1 where
    post: "scan_post ((new_pf2 mc False)\<lparr>is_pf2 := True\<rparr>) f1 False h f"
    and f1: "s_content f1 = file_bytes" "\<not> s_closed f1" by blast
  then show ?thesis by (simp add: scan_post_def)
qed

lemma init_buffered:
  assumes "init_pf2 max_read file_bytes True mc = Inr (h, f)" and "is_pf2 h"
  shows "data_offset h = Some (- int (length file_bytes))
         \<and> (\<exists>p \<le> length file_bytes. 12 \<le> p \<and> data_io h = Some (bytes_io (drop p file_bytes)))"
proof -
  from init_success [OF assms] obtain f1 where
    post: "scan_post ((new_pf2 mc True)\<lparr>is_pf2 := True\<rparr>) f1 True h f"
    and f1: "s_content f1 = file_bytes" "s_pos f1 = 12" by blast
  then show ?thesis by (auto simp: scan_post_def)
qed

lemma buffered_lookup_negative_seek:
  assumes "init_pf2 max_read file_bytes True mc = Inr (h, f)" and "is_pf2 h"
    and "find_info h cp = Inr (cflag, k)" and "k < int (length file_bytes)"
  shows "get_char h cp = Inl ValueError"
proof -
  from init_buffered [OF assms(1,2)] obtain p where
    off: "data_offset h = Some (- int (length file_bytes))"
    and io: "data_io h = Some (bytes_io (drop p file_bytes))" by blast
  have "seek (bytes_io (drop p file_bytes)) (k + - int (length file_bytes)) = Inl ValueError"
    using assms(4) by (simp add: seek_def bytes_io_def)
  then show ?thesis by (simp add: get_char_seek [OF assms(3) io off])
qed

section \<open>C3: what an index offset is relative to\<close>

text \<open>
  C3 as stated fails on \<open>relative_font\<close> opened without \<open>read_to_mem\<close>: the glyph
  at byte 11 of the data section is \<open>example_glyph_A\<close>, and the lookup of \<open>A\<close>
  decodes bytes 11 to 20 of the file (the end of the magic and the \<open>CHIX\<close> header)
  as the header and returns the rest of the file as the bitmap.
\<close>

theorem C3_offsets_relative_to_data_counterexample:
  "lookup_relative_to_data example_max_read relative_font 63 65 = Inr example_glyph_A
   \<and> open_lookup example_max_read relative_font False 63 65
       = Inr \<lparr>width = 12867, height = 18505, x_offset = 22528, y_offset = 0,
              device_width = 4608, bitmap_data = drop 21 relative_font\<rparr>"
  by (simp add: relative_font_def lookup_relative_to_data_def open_lookup_def
        example_glyph_A_def open_defs lookup_defs stream_defs codec_defs tag_defs)

text \<open>
  C3, amended: every lookup seeks the data source to the entry's offset plus
  \<open>data_offset\<close>. Without \<open>read_to_mem\<close> the data source is the file itself and
  \<open>data_offset\<close> is 0, so position 0 is the first byte of the file, and a lookup that
  returns has read its glyph header starting at the \<open>k\<close>-th byte of the file: index
  offsets are absolute file offsets.
\<close>

theorem C3_streaming_offsets_are_file_offsets:
  "(find_info h cp = Inr (cflag, k) \<and> data_io h = Some data \<and> data_offset h = Some corr
      \<longrightarrow> get_char h cp =
            (case seek data (k + corr) of Inl e \<Rightarrow> Inl e | Inr d0 \<Rightarrow>
            (case read_glyph d0 of Inl e \<Rightarrow> Inl e | Inr (c, d6) \<Rightarrow>
               Inr (c, h\<lparr>data_io := Some d6\<rparr>))))
   \<and> (init_pf2 max_read file_bytes False mc = Inr (h, f) \<and> is_pf2 h \<and> find_info h cp = Inr (cflag, k)
      \<longrightarrow> data_io h = Some f \<and> data_offset h = Some 0 \<and> s_content f = file_bytes
          \<and> (\<forall>g h'. get_char h cp = Inr (g, h') \<longrightarrow>
                0 \<le> k \<and> nat k + 10 \<le> length file_bytes
                \<and> width g = u16 (file_bytes ! nat k) (file_bytes ! (nat k + 1))
                \<and> height g = u16 (file_bytes ! (nat k + 2)) (file_bytes ! (nat k + 3))
                \<and> x_offset g = s16 (file_bytes ! (nat k + 4)) (file_bytes ! (nat k + 5))
                \<and> y_offset g = s16 (file_bytes ! (nat k + 6)) (file_bytes ! (nat k + 7))
                \<and> device_width g = s16 (file_bytes ! (nat k + 8)) (file_bytes ! (nat k + 9))))"
proof (intro conjI impI allI)
  assume "find_info h cp = Inr (cflag, k) \<and> data_io h = Some data \<and> data_offset h = Some corr"
  then show "get_char h cp =
            (case seek data (k + corr) of Inl e \<Rightarrow> Inl e | Inr d0 \<Rightarrow>
            (case read_glyph d0 of Inl e \<Rightarrow> Inl e | Inr (c, d6) \<Rightarrow>
               Inr (c, h\<lparr>data_io := Some d6\<rparr>)))"
    by (simp add: get_char_seek)
next
  assume a: "init_pf2 max_read file_bytes False mc = Inr (h, f) \<and> is_pf2 h
             \<and> find_info h cp = Inr (cflag, k)"
  then have st: "data_io h = Some f" "data_offset h = Some 0" "s_content f = file_bytes"
    using init_streaming [of max_read file_bytes mc h f] by simp_all
  show "data_io h = Some f" "data_offset h = Some 0" "s_content f = file_bytes"
    by (rule st)+
  fix g h'
  assume gc: "get_char h cp = Inr (g, h')"
  from a have fi: "find_info h cp = Inr (cflag, k)" by simp
  from gc obtain d0 where sk: "seek f (k + 0) = Inr d0"
    by (auto simp: get_char_seek [OF fi st(1,2)] split: sum.splits)
  from seek_Inr [OF sk] have nn: "0 \<le> k" and d0: "d0 = f\<lparr>s_pos := nat k\<rparr>" by simp_all
  from gc sk d0 obtain d6 where rg: "read_glyph (f\<lparr>s_pos := nat k\<rparr>) = Inr (g, d6)"
    by (auto simp: get_char_seek [OF fi st(1,2)] split: sum.splits prod.splits)
  from read_glyph_Inr [OF rg] nn st(3)
  show "0 \<le> k" "nat k + 10 \<le> length file_bytes"
    "width g = u16 (file_bytes ! nat k) (file_bytes ! (nat k + 1))"
    "height g = u16 (file_bytes ! (nat k + 2)) (file_bytes ! (nat k + 3))"
    "x_offset g = s16 (file_bytes ! (nat k + 4)) (file_bytes ! (nat k + 5))"
    "y_offset g = s16 (file_bytes ! (nat k + 6)) (file_bytes ! (nat k + 7))"
    "device_width g = s16 (file_bytes ! (nat k + 8)) (file_bytes ! (nat k + 9))"
    by simp_all
qed

theorem C3_streaming_offsets_are_file_offsets_witness:
  "init_pf2 example_max_read example_font False 63
     = Inr (example_handle 63, (open_rb example_max_read example_font)\<lparr>s_pos := 46\<rparr>)
   \<and> find_info (example_handle 63) 65 = Inr (0, 57)
   \<and> data_io (example_handle 63) = Some ((open_rb example_max_read example_font)\<lparr>s_pos := 46\<rparr>)
   \<and> data_offset (example_handle 63) = Some 0
   \<and> get_char (example_handle 63) 65 =
        Inr (example_glyph_A,
             (example_handle 63)\<lparr>data_io := Some ((open_rb example_max_read example_font)\<lparr>s_pos := 68\<rparr>)\<rparr>)
   \<and> 57 + 10 \<le> length example_font
   \<and> width example_glyph_A = u16 (example_font ! 57) (example_font ! 58)
   \<and> height example_glyph_A = u16 (example_font ! 59) (example_font ! 60)
   \<and> device_width example_glyph_A = s16 (example_font ! 65) (example_font ! 66)"
proof -
  let ?f = "(open_rb example_max_read example_font)\<lparr>s_pos := 46\<rparr>"
  have i: "init_pf2 example_max_read example_font False 63 = Inr (example_handle 63, ?f)"
    by (rule init_example_font)
  have p: "is_pf2 (example_handle 63)" by (simp add: example_handle_def)
  have fi: "find_info (example_handle 63) 65 = Inr (0, 57)"
    by (simp add: find_info_def example_handle_def example_index_def new_pf2_def)
  note t = C3_streaming_offsets_are_file_offsets
    [where h = "example_handle 63" and cp = 65 and cflag = 0 and k = 57
       and file_bytes = example_font and mc = 63 and f = ?f, THEN conjunct2, rule_format]
  have a: "data_io (example_handle 63) = Some ?f" "data_offset (example_handle 63) = Some 0"
    using t i p fi by blast+
  have b: "57 + 10 \<le> length example_font"
    "width example_glyph_A = u16 (example_font ! 57) (example_font ! 58)"
    "height example_glyph_A = u16 (example_font ! 59) (example_font ! 60)"
    "device_width example_glyph_A = s16 (example_font ! 65) (example_font ! 66)"
    using t [OF conjI [OF i conjI [OF p fi]]] get_char_example_A by (simp_all add: nat_add_distrib)
  from i fi a b get_char_example_A show ?thesis by blast
qed

section \<open>C2: \<open>read_to_mem\<close> against the open file\<close>

text \<open>
  C2 says that both modes return the same glyph. On \<open>example_font\<close> the lookup of
  \<open>A\<close> returns \<open>example_glyph_A\<close> from the open file and raises \<open>ValueError\<close> with
  \<open>read_to_mem\<close>: \<open>data_offset\<close> is minus the position of the file after
  \<open>file.read()\<close>, which is the length of the file (68), not the position where
  \<open>DATA\<close> was reached (46), so the \<open>BytesIO\<close> is asked to seek to 57 - 68. By
  \<open>buffered_lookup_negative_seek\<close> this happens for every offset below the length of
  the file, whatever the file; \<open>relative_font\<close> is no exception.
\<close>

theorem C2_buffered_lookup_raises:
  "open_lookup example_max_read example_font False 63 65 = Inr example_glyph_A
   \<and> open_lookup example_max_read example_font True 63 65 = Inl ValueError
   \<and> (case init_pf2 example_max_read example_font True 63 of Inl e \<Rightarrow> None | Inr (h, f) \<Rightarrow> data_offset h)
       = Some (- 68)
   \<and> (case init_pf2 example_max_read example_font False 63 of Inl e \<Rightarrow> None | Inr (h, f) \<Rightarrow> Some (s_pos f))
       = Some 46
   \<and> open_lookup example_max_read relative_font True 63 65 = Inl ValueError"
  by (simp add: example_font_def relative_font_def open_lookup_def example_glyph_A_def
        open_defs lookup_defs stream_defs codec_defs tag_defs)

section \<open>C10: what a \<open>CHIX\<close> section makes the scan consume\<close>

text \<open>
  \<open>long_index_font\<close> has a \<open>CHIX\<close> section whose length field is 01 00 00 08: it
  declares \<open>2 ^ 24 + 8 = 16777224 = 9 * 1864136\<close> bytes, and holds them: 1864136
  records of nine zero bytes, followed by the \<open>DATA\<close> section.
\<close>

definition zero_records :: "byte list" where
  "zero_records = replicate 16777224 0"

definition long_index_font :: "byte list" where
  "long_index_font = magic @ tag_CHIX @ [1, 0, 0, 8] @ zero_records @ tag_DATA @ [0, 0, 0, 0]"

lemma length_zero_records: "length zero_records = 16777224"
  by (simp only: zero_records_def length_replicate)

text \<open>
  C10 says that after a \<open>CHIX\<close> section of declared length \<open>L\<close> the scanner has
  consumed \<open>9 * (L div 9)\<close> bytes and reads the next name there. For a length field
  whose first byte is zero that is what happens (\<open>chix_leaves_remainder_unread\<close>,
  \<open>chix_then_data\<close>). The length field 01 00 00 08 declares 16777224 bytes, but
  \<open>int32be\<close> makes \<open>2 ^ 32 + 8\<close> of it and the loop asks for 477218589 records
  instead of 1864136: in any file of less than \<open>2 ^ 32\<close> bytes it runs through the
  rest of the file, the next section included, and the open ends with \<open>IndexError\<close>.
\<close>

theorem C10_length_first_byte_shifted_by_32:
  assumes "read_n f 4 = Inr (tag_CHIX, f1)" and "read_n f1 4 = Inr ([1, 0, 0, 8], f2)"
    and "remaining f2 < 2 ^ 32"
  shows "int32be [1, 0, 0, 8] = Inr (2 ^ 32 + 8)
         \<and> nat ((2 ^ 32 + 8) div 9) = 477218589
         \<and> read_chix 477218589 Map.empty f2 = Inl IndexError
         \<and> scan h f rtm = Inl IndexError"
proof -
  have d: "int32be [1, 0, 0, 8] = Inr (2 ^ 32 + 8)" by (simp add: int32be_quad)
  have n: "nat (((2 :: int) ^ 32 + 8) div 9) = 477218589" by simp
  have short: "remaining f2 < 9 * nat (((2 :: int) ^ 32 + 8) div 9)"
    using assms(3) by (simp only: n) simp
  have op: "\<not> s_closed f2" using read_n_Inr [OF assms(2)] read_n_Inr [OF assms(1)] by simp
  have c: "read_chix 477218589 Map.empty f2 = Inl IndexError"
    using read_chix_short [OF op short, of Map.empty] by (simp only: n)
  have "scan h f rtm = Inl IndexError"
    using assms(1,2) d short by (rule scan_chix_short)
  with d n c show ?thesis by blast
qed

theorem C10_length_first_byte_shifted_by_32_witness:
  "read_n ((open_rb example_max_read long_index_font)\<lparr>s_pos := 12\<rparr>) 4
     = Inr (tag_CHIX, (open_rb example_max_read long_index_font)\<lparr>s_pos := 16\<rparr>)
   \<and> read_n ((open_rb example_max_read long_index_font)\<lparr>s_pos := 16\<rparr>) 4
     = Inr ([1, 0, 0, 8], (open_rb example_max_read long_index_font)\<lparr>s_pos := 20\<rparr>)
   \<and> remaining ((open_rb example_max_read long_index_font)\<lparr>s_pos := 20\<rparr>) = 16777224 + 8
   \<and> scan ((new_pf2 63 False)\<lparr>is_pf2 := True\<rparr>)
        ((open_rb example_max_read long_index_font)\<lparr>s_pos := 12\<rparr>) False
      = Inl IndexError
   \<and> init_pf2 example_max_read long_index_font False 63 = Inl IndexError"
proof -
  let ?f = "(open_rb example_max_read long_index_font)\<lparr>s_pos := 12\<rparr>"
  let ?f1 = "(open_rb example_max_read long_index_font)\<lparr>s_pos := 16\<rparr>"
  let ?f2 = "(open_rb example_max_read long_index_font)\<lparr>s_pos := 20\<rparr>"
  have r0: "read_n (open_rb example_max_read long_index_font) 12 = Inr (magic, ?f)"
    by (simp add: long_index_font_def stream_defs tag_defs)
  have r1: "read_n ?f 4 = Inr (tag_CHIX, ?f1)"
    by (simp add: long_index_font_def stream_defs tag_defs)
  have r2: "read_n ?f1 4 = Inr ([1, 0, 0, 8], ?f2)"
    by (simp add: long_index_font_def stream_defs tag_defs)
  have rem: "remaining ?f2 = 16777224 + 8"
    by (simp add: long_index_font_def remaining_def open_rb_def tag_defs length_zero_records)
  then have small: "remaining ?f2 < 2 ^ 32" by simp
  note t = C10_length_first_byte_shifted_by_32
    [OF r1 r2 small, of "(new_pf2 63 False)\<lparr>is_pf2 := True\<rparr>" False]
  then have s: "scan ((new_pf2 63 False)\<lparr>is_pf2 := True\<rparr>) ?f False = Inl IndexError"
    by blast
  have i: "init_pf2 example_max_read long_index_font False 63 = Inl IndexError"
    by (simp add: init_pf2_def Let_def r0 s)
  from r1 r2 rem s i show ?thesis by blast
qed

end
